theory Spec2Isabelle
  imports Complex_Main "HOL-Library.Word" "HOL-Library.Log_Nat"
begin

section \<open>Python values\<close>

text \<open>
  A Python \<open>str\<close> is a sequence of Unicode code points. A Python float is the
  rational it denotes; every float operation of the source is the exact operation
  followed by rounding to the nearest double, and a store into a \<open>c_float\<close> field rounds
  to the nearest 32-bit float (ties to even, gradual underflow). Overflow to infinity
  and NaN are not represented.
\<close>

type_synonym pystr = "nat list"

type_synonym bytes = "nat list"

definition lit :: "string \<Rightarrow> pystr" where
  "lit s = map of_char s"

datatype error =
    RuntimeError pystr
  | ValueError
  | IndexError
  | ZeroDivisionError

text \<open>\<open>int(x)\<close> on a float truncates toward zero.\<close>

definition py_int :: "rat \<Rightarrow> int" where
  "py_int x = (if x < 0 then - \<lfloor>- x\<rfloor> else \<lfloor>x\<rfloor>)"

subsection \<open>Binary floating point\<close>

definition round_half_even :: "rat \<Rightarrow> int" where
  "round_half_even x =
     (let f = \<lfloor>x\<rfloor>; d = x - of_int f
      in if d < 1 / 2 then f
         else if 1 / 2 < d then f + 1
         else if even f then f else f + 1)"

text \<open>The integer \<open>n\<close> with \<open>2^n \<le> x < 2^(n+1)\<close>, for a positive \<open>x\<close>.\<close>

definition ilog2 :: "rat \<Rightarrow> int" where
  "ilog2 x = (if 1 \<le> x then bitlen \<lfloor>x\<rfloor> - 1 else - bitlen (\<lceil>1 / x\<rceil> - 1))"

text \<open>
  Rounding to a binary format with \<open>p\<close> significant bits whose smallest positive value
  is \<open>2^emin\<close>: the nearest multiple of the unit in the last place.
\<close>

definition round_binary :: "nat \<Rightarrow> int \<Rightarrow> rat \<Rightarrow> rat" where
  "round_binary p emin x =
     (if x = 0 then 0
      else (let e = max emin (ilog2 \<bar>x\<bar> - (int p - 1))
            in of_int (round_half_even (x / 2 powi e)) * 2 powi e))"

definition round_double :: "rat \<Rightarrow> rat" where
  "round_double = round_binary 53 (- 1074)"

definition round_float32 :: "rat \<Rightarrow> rat" where
  "round_float32 = round_binary 24 (- 149)"

text \<open>\<open>x % 1.0\<close>: the result has the sign of the divisor, so it lies in [0, 1].\<close>

definition py_mod1 :: "rat \<Rightarrow> rat" where
  "py_mod1 x = round_double (x - of_int \<lfloor>x\<rfloor>)"


text \<open>\<open>list.index\<close>: the first position of an element, \<open>None\<close> where Python raises ValueError.\<close>

fun index_of :: "'a list \<Rightarrow> 'a \<Rightarrow> nat option" where
  "index_of [] x = None"
| "index_of (y # ys) x = (if y = x then Some 0 else map_option Suc (index_of ys x))"

subsection \<open>The Windows-1252 codec and \<open>str.strip\<close>\<close>

text \<open>
  \<open>bytes(s, encoding='windows-1252')\<close>: code points 0..127 and 160..255 map to themselves,
  27 further code points map into 128..159, everything else raises UnicodeEncodeError.
\<close>

definition cp1252_table :: "(nat \<times> nat) list" where
  "cp1252_table =
     [(0x20AC, 0x80), (0x201A, 0x82), (0x0192, 0x83), (0x201E, 0x84), (0x2026, 0x85),
      (0x2020, 0x86), (0x2021, 0x87), (0x02C6, 0x88), (0x2030, 0x89), (0x0160, 0x8A),
      (0x2039, 0x8B), (0x0152, 0x8C), (0x017D, 0x8E), (0x2018, 0x91), (0x2019, 0x92),
      (0x201C, 0x93), (0x201D, 0x94), (0x2022, 0x95), (0x2013, 0x96), (0x2014, 0x97),
      (0x02DC, 0x98), (0x2122, 0x99), (0x0161, 0x9A), (0x203A, 0x9B), (0x0153, 0x9C),
      (0x017E, 0x9E), (0x0178, 0x9F)]"

definition cp1252_char :: "nat \<Rightarrow> nat option" where
  "cp1252_char c =
     (if c < 0x80 \<or> (0xA0 \<le> c \<and> c \<le> 0xFF) then Some c else map_of cp1252_table c)"

fun cp1252_encode :: "pystr \<Rightarrow> bytes option" where
  "cp1252_encode [] = Some []"
| "cp1252_encode (c # cs) =
     (case cp1252_char c of
        None \<Rightarrow> None
      | Some b \<Rightarrow> (case cp1252_encode cs of None \<Rightarrow> None | Some bs \<Rightarrow> Some (b # bs)))"

definition is_space :: "nat \<Rightarrow> bool" where
  "is_space c \<longleftrightarrow>
     (9 \<le> c \<and> c \<le> 13) \<or> (28 \<le> c \<and> c \<le> 32) \<or> c = 0x85 \<or> c = 0xA0 \<or> c = 0x1680
     \<or> (0x2000 \<le> c \<and> c \<le> 0x200A) \<or> c = 0x2028 \<or> c = 0x2029 \<or> c = 0x202F
     \<or> c = 0x205F \<or> c = 0x3000"

definition strip :: "pystr \<Rightarrow> pystr" where
  "strip s = rev (dropWhile is_space (rev (dropWhile is_space s)))"

text \<open>
  Assignment to a \<open>c_char * 64\<close> field of a fresh structure: ctypes takes the bytes up
  to the first NUL; more than 64 of them raise ValueError, otherwise they are stored
  NUL-padded.
\<close>

definition set_name_field :: "bytes \<Rightarrow> error + bytes" where
  "set_name_field bs =
     (let raw = takeWhile (\<lambda>b. b \<noteq> 0) bs
      in if 64 < length raw then Inl ValueError
         else Inr (raw @ replicate (64 - length raw) 0))"

section \<open>The animation file model (\<open>class Psa\<close>)\<close>

type_synonym Vector3 = "rat \<times> rat \<times> rat"

type_synonym Quaternion = "rat \<times> rat \<times> rat \<times> rat"

text \<open>The \<open>c_int32\<close> fields are 32-bit words (\<open>sint\<close> reads them): a store wraps, as ctypes does.\<close>

record Psa_Bone =
  name :: bytes
  flags :: "32 word"
  children_count :: "32 word"
  parent_index :: "32 word"
  rotation :: Quaternion
  location :: Vector3

record Psa_Sequence =
  seq_name :: bytes
  seq_group :: bytes
  bone_count :: "32 word"
  root_include :: "32 word"
  compression_style :: "32 word"
  key_quotum :: "32 word"
  key_reduction :: rat
  track_time :: rat
  fps :: rat
  start_bone :: "32 word"
  frame_start_index :: "32 word"
  frame_count :: "32 word"

record Psa_Key =
  key_location :: Vector3
  key_rotation :: Quaternion
  time :: rat

record Psa =
  bones :: "Psa_Bone list"
  sequences :: "(pystr \<times> Psa_Sequence) list"
  keys :: "Psa_Key list"

text \<open>\<open>psa.sequences[k] = v\<close> on an OrderedDict: an existing key keeps its position.\<close>

fun dict_set :: "('k \<times> 'v) list \<Rightarrow> 'k \<Rightarrow> 'v \<Rightarrow> ('k \<times> 'v) list" where
  "dict_set [] k v = [(k, v)]"
| "dict_set (p # ps) k v = (if fst p = k then (k, v) # ps else p # dict_set ps k v)"

section \<open>Build options (\<open>PsaBuildSequence\<close>, \<open>PsaBuildOptions\<close>)\<close>

record NlaState =
  action :: nat
  frame_start :: int
  frame_end :: int

record PsaBuildSequence =
  bs_name :: pystr
  nla_state :: NlaState
  compression_ratio :: rat
  key_quota :: int
  bs_fps :: rat

record PsaBuildOptions =
  opt_sequences :: "PsaBuildSequence list"
  should_enforce_bone_name_restrictions :: bool
  sequence_name_prefix :: pystr
  sequence_name_suffix :: pystr

text \<open>
  The host scene that \<open>build_psa\<close> reads. A Blender bone is identified by its position
  in \<open>armature_data.bones\<close>; its parent is such a position or \<open>None\<close>. The functions of
  the host application and the helpers that the source calls but does not define are
  parameters: \<open>export_bone_names\<close> is what \<open>get_export_bone_names\<close> returns,
  \<open>check_bone_names\<close> returns the error it raises (if any), \<open>rest_pose\<close> is the bind
  location and rotation computed for a bone, \<open>pose\<close> the location and rotation of a pose
  bone after \<open>frame_set(frame, subframe)\<close> under an action.
\<close>

record Bone =
  bone_name :: pystr
  bone_parent :: "nat option"

record scene =
  armature_bones :: "Bone list"
  export_bone_names :: "pystr list"
  check_bone_names :: "pystr list \<Rightarrow> error option"
  rest_pose :: "nat \<Rightarrow> Vector3 \<times> Quaternion"
  pose :: "nat \<Rightarrow> int \<Rightarrow> rat \<Rightarrow> nat \<Rightarrow> Vector3 \<times> Quaternion"

section \<open>Sequence sampling (\<open>build_psa\<close>, the sequence loop)\<close>

definition frame_extents :: "PsaBuildSequence \<Rightarrow> int" where
  "frame_extents s = \<bar>frame_end (nla_state s) - frame_start (nla_state s)\<bar>"

definition frame_count_raw :: "PsaBuildSequence \<Rightarrow> int" where
  "frame_count_raw s = frame_extents s + 1"

text \<open>
  \<open>frame_count_raw * compression_ratio\<close> is a product of floats (frame numbers are far
  below 2^53, so the conversion of \<open>frame_count_raw\<close> is exact).
\<close>

definition sampled_frame_count :: "PsaBuildSequence \<Rightarrow> int" where
  "sampled_frame_count s =
     max (key_quota s)
       (py_int (round_double (of_int (frame_count_raw s) * compression_ratio s)))"

text \<open>
  The division raises ZeroDivisionError exactly when \<open>frame_count - 1 = 0\<close>, which the
  source turns into a step of 0; a reversed range negates the step.
\<close>

definition frame_step :: "PsaBuildSequence \<Rightarrow> rat" where
  "frame_step s =
     (let st = (if sampled_frame_count s - 1 = 0 then 0
                else of_int (frame_extents s) / of_int (sampled_frame_count s - 1))
      in if frame_start (nla_state s) > frame_end (nla_state s) then - st else st)"

definition sequence_duration :: "PsaBuildSequence \<Rightarrow> error + rat" where
  "sequence_duration s =
     (if bs_fps s = 0 then Inl ZeroDivisionError
      else Inr (round_double (of_int (frame_count_raw s) / bs_fps s)))"

text \<open>
  The two inner loops. \<open>f\<close> is the value read back from \<open>psa_sequence.fps\<close>;
  \<open>1.0 / psa_sequence.fps\<close> is evaluated once per key and raises when that value is 0.
  \<open>frame_set(frame=int(frame), subframe=frame % 1.0)\<close> is what the pose is sampled at;
  \<open>frame += frame_step\<close> is a float addition.
\<close>

fun bone_keys :: "scene \<Rightarrow> nat \<Rightarrow> int \<Rightarrow> rat \<Rightarrow> rat \<Rightarrow> nat list \<Rightarrow> error + Psa_Key list" where
  "bone_keys sc a fr sub f [] = Inr []"
| "bone_keys sc a fr sub f (pb # pbs) =
     (if f = 0 then Inl ZeroDivisionError
      else (case bone_keys sc a fr sub f pbs of
              Inl e \<Rightarrow> Inl e
            | Inr ks \<Rightarrow>
                Inr (\<lparr>key_location = fst (pose sc a fr sub pb),
                      key_rotation = snd (pose sc a fr sub pb),
                      time = round_float32 (round_double (1 / f))\<rparr> # ks)))"

fun frame_keys ::
  "scene \<Rightarrow> nat \<Rightarrow> nat list \<Rightarrow> rat \<Rightarrow> rat \<Rightarrow> nat \<Rightarrow> rat \<Rightarrow> error + Psa_Key list" where
  "frame_keys sc a pbs f step 0 frame = Inr []"
| "frame_keys sc a pbs f step (Suc n) frame =
     (case bone_keys sc a (py_int frame) (py_mod1 frame) f pbs of
        Inl e \<Rightarrow> Inl e
      | Inr ks \<Rightarrow>
          (case frame_keys sc a pbs f step n (round_double (frame + step)) of
             Inl e \<Rightarrow> Inl e
           | Inr ks' \<Rightarrow> Inr (ks @ ks')))"

definition sequence_name_error :: "pystr \<Rightarrow> pystr" where
  \<open>sequence_name_error n =
     lit ''Sequence name "'' @ n @
     lit ''" contains characters that cannot be encoded in the Windows-1252 codepage''\<close>

definition bone_name_error :: "pystr \<Rightarrow> pystr" where
  \<open>bone_name_error n =
     lit ''Bone name "'' @ n @
     lit ''" contains characters that cannot be encoded in the Windows-1252 codepage''\<close>

text \<open>One iteration of the sequence loop: the Sequence record and the keys it appends.\<close>

definition build_sequence ::
  "scene \<Rightarrow> nat list \<Rightarrow> int \<Rightarrow> PsaBuildSequence \<Rightarrow> error + (Psa_Sequence \<times> Psa_Key list)" where
  "build_sequence sc pose_bones fsi s =
     (case sequence_duration s of
        Inl e \<Rightarrow> Inl e
      | Inr d \<Rightarrow>
         (case cp1252_encode (bs_name s) of
            None \<Rightarrow> Inl (RuntimeError (sequence_name_error (bs_name s)))
          | Some bs \<Rightarrow>
             (case set_name_field bs of
                Inl e \<Rightarrow> Inl e
              | Inr nm \<Rightarrow>
                 if d = 0 then Inl ZeroDivisionError
                 else
                   (let psa_sequence =
                      \<lparr>seq_name = nm, seq_group = replicate 64 0,
                       bone_count = of_nat (length pose_bones),
                       root_include = 0, compression_style = 0, key_quotum = 0,
                       key_reduction = 1,
                       track_time =
                         round_float32 (round_double (of_int (sampled_frame_count s))),
                       fps =
                         round_float32 (round_double (of_int (sampled_frame_count s) / d)),
                       start_bone = 0,
                       frame_start_index = of_int fsi,
                       frame_count = of_int (sampled_frame_count s)\<rparr>
                    in (case frame_keys sc (action (nla_state s)) pose_bones (fps psa_sequence)
                               (round_double (frame_step s)) (nat (sampled_frame_count s))
                               (round_double (of_int (frame_start (nla_state s)))) of
                          Inl e \<Rightarrow> Inl e
                        | Inr ks \<Rightarrow> Inr (psa_sequence, ks))))))"

fun build_sequences ::
  "scene \<Rightarrow> nat list \<Rightarrow> PsaBuildSequence list \<Rightarrow> int \<Rightarrow> Psa \<Rightarrow> error + Psa" where
  "build_sequences sc pbs [] fsi psa = Inr psa"
| "build_sequences sc pbs (s # ss) fsi psa =
     (case build_sequence sc pbs fsi s of
        Inl e \<Rightarrow> Inl e
      | Inr (q, ks) \<Rightarrow>
          build_sequences sc pbs ss (fsi + sampled_frame_count s)
            (psa\<lparr>keys := keys psa @ ks,
                 sequences := dict_set (sequences psa) (bs_name s) q\<rparr>))"

definition rename_sequence :: "PsaBuildOptions \<Rightarrow> PsaBuildSequence \<Rightarrow> PsaBuildSequence" where
  "rename_sequence opts s =
     s\<lparr>bs_name := strip (sequence_name_prefix opts @ bs_name s @ sequence_name_suffix opts)\<rparr>"

section \<open>The bone loop of \<open>build_psa\<close>\<close>

text \<open>
  \<open>bones.index(bone.parent)\<close> raises ValueError when the parent is \<open>None\<close> or not exported;
  \<open>psa.bones[parent_index]\<close> raises IndexError, which nothing catches, when the parent's
  record has not been appended yet.
\<close>

definition parent_position :: "(nat \<times> Bone) list \<Rightarrow> Bone \<Rightarrow> nat option" where
  "parent_position bs b =
     (case bone_parent b of None \<Rightarrow> None | Some p \<Rightarrow> index_of (map fst bs) p)"

definition add_bone ::
  "scene \<Rightarrow> (nat \<times> Bone) list \<Rightarrow> Psa_Bone list \<Rightarrow> nat \<times> Bone \<Rightarrow> error + Psa_Bone list" where
  "add_bone sc bs psa_bones ib =
     (case cp1252_encode (bone_name (snd ib)) of
        None \<Rightarrow> Inl (RuntimeError (bone_name_error (bone_name (snd ib))))
      | Some raw \<Rightarrow>
         (case set_name_field raw of
            Inl e \<Rightarrow> Inl e
          | Inr nm \<Rightarrow>
             (let psa_bone = \<lparr>name = nm, flags = 0, children_count = 0, parent_index = 0,
                              rotation = snd (rest_pose sc (fst ib)),
                              location = fst (rest_pose sc (fst ib))\<rparr>
              in (case parent_position bs (snd ib) of
                    None \<Rightarrow> Inr (psa_bones @ [psa_bone])
                  | Some pidx \<Rightarrow>
                      if pidx < length psa_bones
                      then Inr (psa_bones
                                  [pidx := (psa_bones ! pidx)
                                     \<lparr>children_count := children_count (psa_bones ! pidx) + 1\<rparr>]
                                @ [psa_bone\<lparr>parent_index := of_nat pidx\<rparr>])
                      else Inl IndexError))))"

fun build_bones ::
  "scene \<Rightarrow> (nat \<times> Bone) list \<Rightarrow> (nat \<times> Bone) list \<Rightarrow> Psa_Bone list \<Rightarrow> error + Psa_Bone list" where
  "build_bones sc bs [] psa_bones = Inr psa_bones"
| "build_bones sc bs (ib # rest) psa_bones =
     (case add_bone sc bs psa_bones ib of
        Inl e \<Rightarrow> Inl e
      | Inr psa_bones' \<Rightarrow> build_bones sc bs rest psa_bones')"

fun index_all :: "'a list \<Rightarrow> 'a list \<Rightarrow> nat list option" where
  "index_all xs [] = Some []"
| "index_all xs (y # ys) =
     (case index_of xs y of
        None \<Rightarrow> None
      | Some i \<Rightarrow> (case index_all xs ys of None \<Rightarrow> None | Some is \<Rightarrow> Some (i # is)))"

definition bone_indices :: "scene \<Rightarrow> nat list option" where
  "bone_indices sc = index_all (map bone_name (armature_bones sc)) (export_bone_names sc)"

definition exported_bones :: "scene \<Rightarrow> nat list \<Rightarrow> (nat \<times> Bone) list" where
  "exported_bones sc is = map (\<lambda>i. (i, armature_bones sc ! i)) is"

definition build_psa :: "scene \<Rightarrow> PsaBuildOptions \<Rightarrow> error + Psa" where
  "build_psa sc opts =
     (case bone_indices sc of
        None \<Rightarrow> Inl ValueError
      | Some is \<Rightarrow>
         (let bs = exported_bones sc is
          in if length bs = 0 then Inl (RuntimeError (lit ''No bones available for export''))
             else (case (if should_enforce_bone_name_restrictions opts
                         then check_bone_names sc (map (\<lambda>ib. bone_name (snd ib)) bs)
                         else None) of
                     Some e \<Rightarrow> Inl e
                   | None \<Rightarrow>
                      (case build_bones sc bs bs [] of
                         Inl e \<Rightarrow> Inl e
                       | Inr psa_bones \<Rightarrow>
                           build_sequences sc is
                             (map (rename_sequence opts) (opt_sequences opts)) 0
                             \<lparr>bones = psa_bones, sequences = [], keys = []\<rparr>))))"

section \<open>Writing the file (\<open>Section\<close>, \<open>write_section\<close>, \<open>write_psa\<close>, \<open>psa_export\<close>)\<close>

type_synonym byte = "8 word"


record Section =
  section_name :: "byte list"
  type_flags :: "32 word"
  data_size :: "32 word"
  data_count :: "32 word"















section \<open>Reading a mesh file (\<open>pskimport\<close>)\<close>

text \<open>
  \<open>header = Section()\<close> is a zeroed 32-byte structure whose constructor sets
  \<open>type_flags\<close>; \<open>file.readinto(header)\<close> overwrites as many leading bytes as the file
  has. Integers are little-endian.
\<close>

fun le_bytes :: "nat \<Rightarrow> nat \<Rightarrow> byte list" where
  "le_bytes 0 n = []"
| "le_bytes (Suc k) n = of_nat (n mod 256) # le_bytes k (n div 256)"

definition le_value :: "byte list \<Rightarrow> nat" where
  "le_value bs = foldr (\<lambda>b acc. unat b + 256 * acc) bs 0"

definition Section_init :: "byte list" where
  "Section_init = replicate 20 0 @ le_bytes 4 1999801 @ replicate 8 0"

definition readinto :: "byte list \<Rightarrow> byte list \<Rightarrow> byte list" where
  "readinto buf file = take (length buf) file @ drop (length file) buf"

definition Section_of :: "byte list \<Rightarrow> Section" where
  "Section_of buf =
     \<lparr>section_name = take 20 buf,
      type_flags = of_nat (le_value (take 4 (drop 20 buf))),
      data_size = of_nat (le_value (take 4 (drop 24 buf))),
      data_count = of_nat (le_value (take 4 (drop 28 buf)))\<rparr>"

text \<open>
  The file is \<open>None\<close> when \<open>open\<close> raises IOError. Everything after the magic check
  (\<open>read_psk_data\<close> and the scene building) is the parameter \<open>import_rest\<close>, given the
  file and the header's \<open>data_count\<close>.
\<close>

definition pskimport ::
  "(byte list \<Rightarrow> 32 word \<Rightarrow> (error + bool) \<times> pystr list) \<Rightarrow> pystr \<Rightarrow> byte list option
     \<Rightarrow> (error + bool) \<times> pystr list" where
  "pskimport import_rest path file =
     (case file of
        None \<Rightarrow> (Inr False, [lit ''Error while opening file for reading: '' @ path])
      | Some content \<Rightarrow>
         (let header = Section_of (readinto Section_init content)
          in if type_flags header \<noteq> 1999801
             then (Inr False, [lit ''File '' @ path @ lit '' is not a valid PSK file.''])
             else import_rest content (data_count header)))"

section \<open>Vocabulary for the claims about Bone records\<close>

text \<open>
  The number of bones among \<open>xs\<close> whose parent is exported at index \<open>i\<close>, and the value
  the source stores into \<open>parent_index\<close>.
\<close>

definition child_count :: "(nat \<times> Bone) list \<Rightarrow> (nat \<times> Bone) list \<Rightarrow> nat \<Rightarrow> nat" where
  "child_count bs xs i = length (filter (\<lambda>ib. parent_position bs (snd ib) = Some i) xs)"

definition parent_field :: "(nat \<times> Bone) list \<Rightarrow> nat \<times> Bone \<Rightarrow> 32 word" where
  "parent_field bs ib = (case parent_position bs (snd ib) of None \<Rightarrow> 0 | Some p \<Rightarrow> of_nat p)"

section \<open>Concrete scenes and sequences\<close>

definition identity_pose :: "Vector3 \<times> Quaternion" where
  "identity_pose = ((0, 0, 0), (0, 0, 0, 1))"

text \<open>A chain of three bones \<open>root\<close>, \<open>mid\<close>, \<open>tip\<close>, all exported.\<close>

definition chain_scene :: scene where
  "chain_scene =
     \<lparr>armature_bones =
        [\<lparr>bone_name = lit ''root'', bone_parent = None\<rparr>,
         \<lparr>bone_name = lit ''mid'', bone_parent = Some 0\<rparr>,
         \<lparr>bone_name = lit ''tip'', bone_parent = Some 1\<rparr>],
      export_bone_names = [lit ''root'', lit ''mid'', lit ''tip''],
      check_bone_names = (\<lambda>ns. None),
      rest_pose = (\<lambda>b. identity_pose),
      pose = (\<lambda>a fr sub b. identity_pose)\<rparr>"

text \<open>A single root bone.\<close>

definition root_scene :: scene where
  "root_scene =
     chain_scene\<lparr>armature_bones := [\<lparr>bone_name = lit ''root'', bone_parent = None\<rparr>],
                 export_bone_names := [lit ''root'']\<rparr>"

text \<open>The same armature with no bone selected for export.\<close>

definition empty_scene :: scene where
  "empty_scene = root_scene\<lparr>export_bone_names := []\<rparr>"

definition make_sequence :: "pystr \<Rightarrow> int \<Rightarrow> int \<Rightarrow> rat \<Rightarrow> int \<Rightarrow> PsaBuildSequence" where
  "make_sequence n a b r q =
     \<lparr>bs_name = n, nla_state = \<lparr>action = 0, frame_start = a, frame_end = b\<rparr>,
      compression_ratio = r, key_quota = q, bs_fps = 30\<rparr>"

definition plain_options :: "PsaBuildSequence list \<Rightarrow> PsaBuildOptions" where
  "plain_options ss =
     \<lparr>opt_sequences = ss, should_enforce_bone_name_restrictions = False,
      sequence_name_prefix = [], sequence_name_suffix = []\<rparr>"

section \<open>Vocabulary for the claims about Sequence records and keys\<close>

text \<open>
  The sequences as the loop meets them, under their final names; the frames and the keys
  emitted before the \<open>k\<close>-th sequence; the block of the flat key array where the keys of
  the \<open>k\<close>-th sequence lie; and whether no later sequence has the name of the \<open>k\<close>-th.
\<close>

definition export_sequences :: "PsaBuildOptions \<Rightarrow> PsaBuildSequence list" where
  "export_sequences opts = map (rename_sequence opts) (opt_sequences opts)"

definition frames_before :: "PsaBuildSequence list \<Rightarrow> nat \<Rightarrow> int" where
  "frames_before ss k = sum_list (map sampled_frame_count (take k ss))"

definition keys_before :: "nat \<Rightarrow> PsaBuildSequence list \<Rightarrow> nat \<Rightarrow> nat" where
  "keys_before nb ss k = sum_list (map (\<lambda>s. nat (sampled_frame_count s) * nb) (take k ss))"

definition keys_of_sequence :: "Psa \<Rightarrow> nat \<Rightarrow> PsaBuildSequence list \<Rightarrow> nat \<Rightarrow> Psa_Key list" where
  "keys_of_sequence psa nb ss k =
     take (nat (sampled_frame_count (ss ! k)) * nb) (drop (keys_before nb ss k) (keys psa))"

definition last_of_its_name :: "PsaBuildSequence list \<Rightarrow> nat \<Rightarrow> bool" where
  "last_of_its_name ss k \<longleftrightarrow> bs_name (ss ! k) \<notin> set (map bs_name (drop (Suc k) ss))"

section \<open>Further concrete sequences, files and scenes\<close>

text \<open>Sequences at 32 frames per second, where every quotient below is exact.\<close>

definition dyadic_sequence :: "pystr \<Rightarrow> int \<Rightarrow> int \<Rightarrow> rat \<Rightarrow> int \<Rightarrow> PsaBuildSequence" where
  "dyadic_sequence n a b r q = (make_sequence n a b r q)\<lparr>bs_fps := 32\<rparr>"

definition two_sequences :: PsaBuildOptions where
  "two_sequences =
     plain_options [dyadic_sequence (lit ''a'') 0 9 (1 / 2) 0, dyadic_sequence (lit ''b'') 0 1 1 0]"

definition same_name_sequences :: PsaBuildOptions where
  "same_name_sequences =
     plain_options [dyadic_sequence (lit ''a'') 0 9 (1 / 2) 0, dyadic_sequence (lit ''a'') 0 1 1 0]"

text \<open>Three frames played at 3 frames per second; seven raw frames with a quota of 3.\<close>

definition thirds_sequence :: PsaBuildOptions where
  "thirds_sequence = plain_options [(make_sequence (lit ''a'') 0 2 1 0)\<lparr>bs_fps := 3\<rparr>]"

definition sevenths_sequence :: PsaBuildOptions where
  "sevenths_sequence = plain_options [dyadic_sequence (lit ''a'') 0 6 0 3]"



definition bad_magic_file :: "byte list" where
  "bad_magic_file = replicate 20 0 @ [1, 0, 0, 0] @ replicate 8 0"




section \<open>Facts about the bone loop\<close>

lemma child_count_Cons:
  "child_count bs (ib # xs) i =
     (if parent_position bs (snd ib) = Some i then 1 else 0) + child_count bs xs i"
  by (simp add: child_count_def)

lemma add_bone_InrD:
  assumes "add_bone sc bs recs ib = Inr recs'"
  shows "length recs' = Suc (length recs)"
    and "\<And>p. parent_position bs (snd ib) = Some p \<Longrightarrow> p < length recs"
    and "\<And>i. i < length recs \<Longrightarrow>
           children_count (recs' ! i) =
             children_count (recs ! i) + (if parent_position bs (snd ib) = Some i then 1 else 0)"
    and "\<And>i. i < length recs \<Longrightarrow> parent_index (recs' ! i) = parent_index (recs ! i)"
    and "children_count (recs' ! length recs) = 0"
    and "parent_index (recs' ! length recs) = parent_field bs ib"
  using assms
  by (auto simp: add_bone_def Let_def parent_field_def nth_append nth_list_update
      split: option.splits sum.splits if_splits)

lemma build_bones_fields:
  assumes "build_bones sc bs rest recs = Inr out"
  shows "length out = length recs + length rest \<and>
         (\<forall>i < length out.
            children_count (out ! i) =
              (if i < length recs then children_count (recs ! i) else 0)
                + of_nat (child_count bs rest i) \<and>
            parent_index (out ! i) =
              (if i < length recs then parent_index (recs ! i)
               else parent_field bs (rest ! (i - length recs))))"
  using assms
proof (induction rest arbitrary: recs)
  case Nil
  then show ?case by (simp add: child_count_def)
next
  case (Cons ib rest)
  from Cons.prems obtain recs1 where
    a: "add_bone sc bs recs ib = Inr recs1" and
    r: "build_bones sc bs rest recs1 = Inr out"
    by (auto split: sum.splits)
  note A = add_bone_InrD [OF a]
  note IH = Cons.IH [OF r]
  have len: "length out = length recs + length (ib # rest)"
    using IH A(1) by simp
  have "children_count (out ! i) =
          (if i < length recs then children_count (recs ! i) else 0)
            + of_nat (child_count bs (ib # rest) i) \<and>
        parent_index (out ! i) =
          (if i < length recs then parent_index (recs ! i)
           else parent_field bs ((ib # rest) ! (i - length recs)))"
    if i: "i < length out" for i
  proof -
    from IH i have
      c: "children_count (out ! i) =
            (if i < length recs1 then children_count (recs1 ! i) else 0)
              + of_nat (child_count bs rest i)" and
      p: "parent_index (out ! i) =
            (if i < length recs1 then parent_index (recs1 ! i)
             else parent_field bs (rest ! (i - length recs1)))"
      by simp_all
    consider "i < length recs" | "i = length recs" | "length recs < i" by linarith
    then show ?thesis
    proof cases
      case 1
      then show ?thesis
        using c p A(1) A(3) [OF 1] A(4) [OF 1] by (simp add: child_count_Cons)
    next
      case 2
      have "parent_position bs (snd ib) \<noteq> Some i"
        using A(2) 2 by auto
      then show ?thesis
        using c p A(1) A(5) A(6) 2 by (simp add: child_count_Cons)
    next
      case 3
      have "parent_position bs (snd ib) \<noteq> Some i"
        using A(2) 3 by auto
      moreover have "(ib # rest) ! (i - length recs) = rest ! (i - length recs1)"
        using 3 A(1) by (simp add: nth_Cons')
      ultimately show ?thesis
        using c p A(1) 3 by (simp add: child_count_Cons)
    qed
  qed
  with len show ?case by blast
qed

lemma build_sequences_bones:
  "build_sequences sc pbs ss fsi psa = Inr psa' \<Longrightarrow> bones psa' = bones psa"
  by (induction ss arbitrary: fsi psa) (auto split: sum.splits prod.splits)

lemma build_psa_bones:
  assumes "build_psa sc opts = Inr psa"
  shows "\<exists>is. bone_indices sc = Some is \<and> is \<noteq> [] \<and>
           build_bones sc (exported_bones sc is) (exported_bones sc is) [] = Inr (bones psa)"
  using assms
  by (auto simp: build_psa_def Let_def exported_bones_def
      split: option.splits sum.splits if_splits dest!: build_sequences_bones)

lemma index_of_less: "index_of xs x = Some p \<Longrightarrow> p < length xs"
  by (induction xs arbitrary: p) (auto split: if_splits)

lemma parent_position_less:
  "parent_position bs b = Some p \<Longrightarrow> p < length bs"
  by (auto simp: parent_position_def split: option.splits dest: index_of_less)

lemma length_filter_nth_cong:
  assumes "length xs = length ys"
    and "\<And>j. j < length xs \<Longrightarrow> P (xs ! j) \<longleftrightarrow> Q (ys ! j)"
  shows "length (filter P xs) = length (filter Q ys)"
proof -
  have "{j. j < length xs \<and> P (xs ! j)} = {j. j < length ys \<and> Q (ys ! j)}"
    using assms by auto
  then show ?thesis by (simp add: length_filter_conv_card)
qed

lemma word32_of_nat_eq_iff:
  assumes "p < 2 ^ 32" and "i < 2 ^ 32"
  shows "(of_nat p :: 32 word) = of_nat i \<longleftrightarrow> p = i"
  using assms by (simp add: word_of_nat_eq_iff take_bit_nat_eq_self)

lemma parent_field_eq_iff:
  assumes "length bs < 2 ^ 32" and "i < length bs"
  shows "parent_field bs ib = of_nat i \<longleftrightarrow>
           parent_position bs (snd ib) = Some i \<or> (i = 0 \<and> parent_position bs (snd ib) = None)"
proof (cases "parent_position bs (snd ib)")
  case None
  have "i < 2 ^ 32" using assms by simp
  then have "(of_nat 0 :: 32 word) = of_nat i \<longleftrightarrow> 0 = i"
    by (intro word32_of_nat_eq_iff) simp_all
  with None show ?thesis by (auto simp: parent_field_def)
next
  case (Some p)
  then have "p < 2 ^ 32" using assms(1) parent_position_less [OF Some] by simp
  moreover have "i < 2 ^ 32" using assms by simp
  ultimately have "(of_nat p :: 32 word) = of_nat i \<longleftrightarrow> p = i"
    by (rule word32_of_nat_eq_iff)
  with Some show ?thesis by (simp add: parent_field_def)
qed

lemmas build_psa_eval = build_psa_def bone_indices_def exported_bones_def plain_options_def
  rename_sequence_def add_bone_def parent_position_def lit_def cp1252_char_def
  set_name_field_def Let_def chain_scene_def root_scene_def empty_scene_def

lemma build_psa_fields:
  assumes "build_psa sc opts = Inr psa" and "bone_indices sc = Some is"
  shows "length (bones psa) = length is"
    and "\<And>i. i < length is \<Longrightarrow>
           children_count (bones psa ! i) =
             of_nat (child_count (exported_bones sc is) (exported_bones sc is) i)"
    and "\<And>i. i < length is \<Longrightarrow>
           parent_index (bones psa ! i) =
             parent_field (exported_bones sc is) (exported_bones sc is ! i)"
proof -
  from build_psa_bones [OF assms(1)] assms(2)
  have "build_bones sc (exported_bones sc is) (exported_bones sc is) [] = Inr (bones psa)"
    by auto
  from build_bones_fields [OF this]
  show "length (bones psa) = length is"
    and "\<And>i. i < length is \<Longrightarrow>
           children_count (bones psa ! i) =
             of_nat (child_count (exported_bones sc is) (exported_bones sc is) i)"
    and "\<And>i. i < length is \<Longrightarrow>
           parent_index (bones psa ! i) =
             parent_field (exported_bones sc is) (exported_bones sc is ! i)"
    by (simp_all add: exported_bones_def)
qed

lemma filter_parent_split:
  "length (filter (\<lambda>ib. parent_position bs (snd ib) = Some i \<or>
                          (i = 0 \<and> parent_position bs (snd ib) = None)) xs) =
   child_count bs xs i +
   (if i = 0 then length (filter (\<lambda>ib. parent_position bs (snd ib) = None) xs) else 0)"
  by (induction xs) (auto simp: child_count_def)

section \<open>The Bone records\<close>

text \<open>
  C5 (amended). For every exported bone list (of fewer than 2^32 bones), the
  \<open>children_count\<close> of the record at index \<open>i\<close> is the number of exported bones whose
  parent is exported at index \<open>i\<close>. The number of records whose \<open>parent_index\<close> field is
  \<open>i\<close> is the same number for \<open>i > 0\<close>; for \<open>i = 0\<close> it exceeds it by the bones that have
  no exported parent (the root among them), which carry \<open>parent_index\<close> 0 and are not
  counted.
\<close>

theorem children_count_counts_exported_children:
  assumes "build_psa sc opts = Inr psa" and "bone_indices sc = Some is"
    and "length is < 2 ^ 32" and "bs = exported_bones sc is"
  shows "length (bones psa) = length is \<and>
         (\<forall>i < length is.
            children_count (bones psa ! i) = of_nat (child_count bs bs i) \<and>
            length (filter (\<lambda>r. parent_index r = of_nat i) (bones psa)) =
              child_count bs bs i +
              (if i = 0 then length (filter (\<lambda>ib. parent_position bs (snd ib) = None) bs)
               else 0))"
proof -
  note F = build_psa_fields [OF assms(1,2)]
  have len: "length bs = length is" by (simp add: assms(4) exported_bones_def)
  have "length (filter (\<lambda>r. parent_index r = of_nat i) (bones psa)) =
          child_count bs bs i +
          (if i = 0 then length (filter (\<lambda>ib. parent_position bs (snd ib) = None) bs) else 0)"
    if i: "i < length is" for i
  proof -
    have "length (filter (\<lambda>r. parent_index r = of_nat i) (bones psa)) =
          length (filter (\<lambda>ib. parent_position bs (snd ib) = Some i \<or>
                               (i = 0 \<and> parent_position bs (snd ib) = None)) bs)"
    proof (rule length_filter_nth_cong)
      show "length (bones psa) = length bs" using F(1) len by simp
    next
      fix j assume "j < length (bones psa)"
      then have j: "j < length is" using F(1) by simp
      show "parent_index (bones psa ! j) = of_nat i \<longleftrightarrow>
            (parent_position bs (snd (bs ! j)) = Some i \<or>
             (i = 0 \<and> parent_position bs (snd (bs ! j)) = None))"
        using F(3) [OF j] parent_field_eq_iff [of bs i "bs ! j"] assms(3) len i
        by (simp add: assms(4))
    qed
    then show ?thesis by (simp only: filter_parent_split)
  qed
  then show ?thesis using F(1) F(2) by (simp add: assms(4))
qed

text \<open>The chain: bone 0 has one child, and two records carry \<open>parent_index\<close> 0.\<close>

theorem children_count_counts_exported_children_witness:
  "\<exists>psa. build_psa chain_scene (plain_options []) = Inr psa \<and>
     length (bones psa) = 3 \<and> children_count (bones psa ! 0) = 1 \<and>
     length (filter (\<lambda>r. parent_index r = 0) (bones psa)) = 2"
proof -
  obtain psa where h: "build_psa chain_scene (plain_options []) = Inr psa"
    by (simp add: build_psa_eval)
  define bs where "bs = exported_bones chain_scene [0, 1, 2]"
  have i: "bone_indices chain_scene = Some [0, 1, 2]"
    by (simp add: bone_indices_def chain_scene_def lit_def)
  have l: "length [0, 1, 2 :: nat] < 2 ^ 32" by simp
  note T = children_count_counts_exported_children [OF h i l bs_def]
  have c: "child_count bs bs 0 = 1"
    by (simp add: bs_def child_count_def exported_bones_def chain_scene_def parent_position_def)
  have n: "length (filter (\<lambda>ib. parent_position bs (snd ib) = None) bs) = 1"
    by (simp add: bs_def exported_bones_def chain_scene_def parent_position_def)
  from T have "length (bones psa) = 3" by simp
  moreover from T [THEN conjunct2, rule_format, of 0] have
    "children_count (bones psa ! 0) = of_nat (child_count bs bs 0) \<and>
     length (filter (\<lambda>r. parent_index r = 0) (bones psa)) =
       child_count bs bs 0 + length (filter (\<lambda>ib. parent_position bs (snd ib) = None) bs)"
    by simp
  ultimately show ?thesis using h c n by auto
qed

text \<open>
  A single root bone: its \<open>children_count\<close> is 0, while one record (its own) has
  \<open>parent_index\<close> 0.
\<close>

theorem root_children_count_counterexample:
  "map_sum id
     (\<lambda>psa. (map children_count (bones psa),
              length (filter (\<lambda>r. parent_index r = 0) (bones psa))))
     (build_psa root_scene (plain_options [])) = Inr ([0], 1)"
  by (simp add: build_psa_eval)

lemma child_count_without:
  assumes "j < length xs" and "parent_position bs (snd (xs ! j)) = None"
  shows "child_count bs (take j xs @ drop (Suc j) xs) i = child_count bs xs i"
proof -
  have "child_count bs xs i = child_count bs (take j xs @ xs ! j # drop (Suc j) xs) i"
    using id_take_nth_drop [OF assms(1)] by simp
  also have "\<dots> = child_count bs (take j xs @ drop (Suc j) xs) i"
    using assms(2) by (simp add: child_count_def)
  finally show ?thesis by simp
qed

text \<open>
  C10. An exported bone whose parent is not in the exported list (or that has none) gets
  \<open>parent_index\<close> 0, and every \<open>children_count\<close> is what it would be with that bone left
  out of the count; a bone whose parent is exported at index 0 gets \<open>parent_index\<close> 0 too.
\<close>

theorem unparented_bone_record:
  assumes "build_psa sc opts = Inr psa" and "bone_indices sc = Some is"
    and "bs = exported_bones sc is" and "j < length is"
    and "parent_position bs (snd (bs ! j)) = None"
  shows "parent_index (bones psa ! j) = 0 \<and>
         (\<forall>i < length is.
            children_count (bones psa ! i) =
              of_nat (child_count bs (take j bs @ drop (Suc j) bs) i)) \<and>
         (\<forall>k < length is.
            parent_position bs (snd (bs ! k)) = Some 0 \<longrightarrow> parent_index (bones psa ! k) = 0)"
proof -
  note F = build_psa_fields [OF assms(1,2)]
  have len: "length bs = length is" by (simp add: assms(3) exported_bones_def)
  have "parent_index (bones psa ! j) = 0"
    using F(3) [OF assms(4)] assms(5) by (simp add: assms(3) parent_field_def)
  moreover have "\<forall>i < length is.
      children_count (bones psa ! i) = of_nat (child_count bs (take j bs @ drop (Suc j) bs) i)"
    using F(2) child_count_without [of j bs bs] assms(4,5) len by (simp add: assms(3))
  moreover have "\<forall>k < length is.
      parent_position bs (snd (bs ! k)) = Some 0 \<longrightarrow> parent_index (bones psa ! k) = 0"
    using F(3) by (simp add: assms(3) parent_field_def)
  ultimately show ?thesis by blast
qed

theorem unparented_bone_record_witness:
  "\<exists>psa. build_psa chain_scene (plain_options []) = Inr psa \<and>
     parent_index (bones psa ! 0) = 0 \<and> parent_index (bones psa ! 1) = 0 \<and>
     children_count (bones psa ! 0) = 1"
proof -
  obtain psa where h: "build_psa chain_scene (plain_options []) = Inr psa"
    by (simp add: build_psa_eval)
  define bs where "bs = exported_bones chain_scene [0, 1, 2]"
  have i: "bone_indices chain_scene = Some [0, 1, 2]"
    by (simp add: bone_indices_def chain_scene_def lit_def)
  have j: "0 < length [0, 1, 2 :: nat]" by simp
  have p: "parent_position bs (snd (bs ! 0)) = None"
    by (simp add: bs_def exported_bones_def chain_scene_def parent_position_def)
  have q: "parent_position bs (snd (bs ! 1)) = Some 0"
    by (simp add: bs_def exported_bones_def chain_scene_def parent_position_def)
  have c: "child_count bs (take 0 bs @ drop (Suc 0) bs) 0 = 1"
    by (simp add: bs_def child_count_def exported_bones_def chain_scene_def parent_position_def)
  note T = unparented_bone_record [OF h i bs_def j p]
  from T have "parent_index (bones psa ! 0) = 0" by blast
  moreover from T [THEN conjunct2, THEN conjunct2, rule_format, of 1] q
  have "parent_index (bones psa ! 1) = 0" by simp
  moreover from T [THEN conjunct2, THEN conjunct1, rule_format, of 0] c
  have "children_count (bones psa ! 0) = 1" by simp
  ultimately show ?thesis using h by blast
qed

section \<open>Arithmetic of the Python values\<close>

lemma floor_rat_numeral_div:
  "\<lfloor>(numeral a / numeral b :: rat)\<rfloor> = numeral a div numeral b"
  using floor_divide_of_int_eq [of "numeral a" "numeral b", where ?'a = rat] by simp


lemma py_int_nonneg: "0 \<le> x \<Longrightarrow> 0 \<le> py_int x"
  by (simp add: py_int_def)

lemma round_half_even_of_int [simp]: "round_half_even (of_int m) = m"
  by (simp add: round_half_even_def)

lemma round_half_even_ge:
  assumes "of_int m \<le> y"
  shows "m \<le> round_half_even y"
proof -
  have "m \<le> \<lfloor>y\<rfloor>" using assms by (simp add: le_floor_iff)
  then show ?thesis by (simp add: round_half_even_def Let_def)
qed

lemma ilog2_bounds:
  assumes "0 < x"
  shows "2 powi ilog2 x \<le> x \<and> x < 2 powi (ilog2 x + 1)"
proof (cases "1 \<le> x")
  case True
  then have f: "0 < \<lfloor>x\<rfloor>" by simp
  from bitlen_bounds [OF f] have
    lo: "2 ^ nat (bitlen \<lfloor>x\<rfloor> - 1) \<le> \<lfloor>x\<rfloor>" and hi: "\<lfloor>x\<rfloor> < 2 ^ nat (bitlen \<lfloor>x\<rfloor>)" by auto
  have b: "1 \<le> bitlen \<lfloor>x\<rfloor>" using f by (simp add: bitlen_alt_def)
  have "(2 :: rat) powi (bitlen \<lfloor>x\<rfloor> - 1) = of_int (2 ^ nat (bitlen \<lfloor>x\<rfloor> - 1))"
    using b by (simp add: power_int_def)
  also have "\<dots> \<le> of_int \<lfloor>x\<rfloor>" using lo by (simp only: of_int_le_iff)
  also have "\<dots> \<le> x" by simp
  finally have 1: "2 powi (bitlen \<lfloor>x\<rfloor> - 1) \<le> x" .
  have "x < of_int (\<lfloor>x\<rfloor> + 1)" by linarith
  also have "\<dots> \<le> of_int (2 ^ nat (bitlen \<lfloor>x\<rfloor>))"
    using hi by (simp only: of_int_le_iff)
  also have "\<dots> = (2 :: rat) powi (bitlen \<lfloor>x\<rfloor>)"
    using b by (simp add: power_int_def)
  finally have 2: "x < 2 powi (bitlen \<lfloor>x\<rfloor>)" .
  from True 1 2 show ?thesis by (simp add: ilog2_def)
next
  case False
  define y where "y = 1 / x"
  have y: "1 < y" using False assms by (simp add: y_def)
  define c where "c = \<lceil>y\<rceil> - 1"
  have c: "0 < c" using y by (simp add: c_def)
  from bitlen_bounds [OF c] have
    lo: "2 ^ nat (bitlen c - 1) \<le> c" and hi: "c < 2 ^ nat (bitlen c)" by auto
  have b: "1 \<le> bitlen c" using c by (simp add: bitlen_alt_def)
  have "y \<le> of_int (c + 1)" by (simp add: c_def)
  also have "\<dots> \<le> of_int (2 ^ nat (bitlen c))" using hi by (simp only: of_int_le_iff)
  also have "\<dots> = (2 :: rat) powi (bitlen c)" using b by (simp add: power_int_def)
  finally have 1: "y \<le> 2 powi (bitlen c)" .
  have "(2 :: rat) powi (bitlen c - 1) = of_int (2 ^ nat (bitlen c - 1))"
    using b by (simp add: power_int_def)
  also have "\<dots> \<le> of_int c" using lo by (simp only: of_int_le_iff)
  also have "\<dots> < y" by (simp add: c_def) linarith 
  finally have 2: "2 powi (bitlen c - 1) < y" .
  have x: "x = 1 / y" using assms by (simp add: y_def)
  have p: "(0 :: rat) < 2 powi k" for k by simp
  have "2 powi (- bitlen c) \<le> x"
    unfolding x power_int_minus using 1 y by (simp add: field_simps)
  moreover have "x < 2 powi (- bitlen c + 1)"
  proof -
    have "(2 :: rat) powi (- bitlen c + 1) = 2 powi (- (bitlen c - 1))" by simp
    also have "\<dots> = 1 / 2 powi (bitlen c - 1)"
      by (simp only: power_int_minus inverse_eq_divide)
    finally have "(2 :: rat) powi (- bitlen c + 1) = 1 / 2 powi (bitlen c - 1)" .
    moreover have "1 / y < 1 / 2 powi (bitlen c - 1)"
      using 2 p [of "bitlen c - 1"] by (simp add: frac_less2)
    ultimately show ?thesis using x by simp
  qed
  ultimately show ?thesis using False by (simp add: ilog2_def y_def c_def)
qed

lemma ilog2_eqI:
  assumes "2 powi n \<le> x" and "x < 2 powi (n + 1)"
  shows "ilog2 x = n"
proof -
  have x: "0 < x" using assms(1) by (rule less_le_trans [rotated]) simp
  from ilog2_bounds [OF x] have a: "2 powi ilog2 x \<le> x" and b: "x < 2 powi (ilog2 x + 1)"
    by auto
  have lt: "j < k" if "(2 :: rat) powi j < 2 powi k" for j k :: int
  proof (rule ccontr)
    assume "\<not> j < k"
    then have "(2 :: rat) powi k \<le> 2 powi j" by (intro power_int_increasing) simp_all
    with that show False by simp
  qed
  have "(2 :: rat) powi n < 2 powi (ilog2 x + 1)" using assms(1) b by simp
  then have 1: "n < ilog2 x + 1" by (rule lt)
  have "(2 :: rat) powi ilog2 x < 2 powi (n + 1)" using a assms(2) by simp
  then have 2: "ilog2 x < n + 1" by (rule lt)
  from 1 2 show ?thesis by simp
qed

lemma round_binary_eval:
  assumes "2 powi n \<le> \<bar>x\<bar>" and "\<bar>x\<bar> < 2 powi (n + 1)"
  shows "round_binary p emin x =
           of_int (round_half_even (x / 2 powi (max emin (n - (int p - 1)))))
             * 2 powi (max emin (n - (int p - 1)))"
proof -
  have "(0 :: rat) < 2 powi n" by simp
  with assms(1) have "0 < \<bar>x\<bar>" by linarith
  then have "x \<noteq> 0" by simp
  then show ?thesis
    by (simp add: round_binary_def Let_def ilog2_eqI [OF assms])
qed

lemma scale_back:
  assumes "e \<le> 0"
  shows "of_int (round_half_even (of_int n / 2 powi e)) * 2 powi e = (of_int n :: rat)"
proof -
  define k where "k = nat (- e)"
  have a: "(2 :: rat) powi e = 1 / 2 ^ k"
    using assms by (simp add: k_def power_int_def inverse_eq_divide power_one_over)
  have "(of_int n :: rat) / 2 powi e = of_int (n * 2 ^ k)" by (simp add: a)
  then have "round_half_even (of_int n / 2 powi e) = n * 2 ^ k"
    by (simp only: round_half_even_of_int)
  then have "of_int (round_half_even (of_int n / 2 powi e)) * 2 powi e =
             (of_int (n * 2 ^ k) :: rat) * (1 / 2 ^ k)"
    by (simp only: a)
  also have "\<dots> = of_int n" by simp
  finally show ?thesis .
qed

lemma round_binary_nonneg:
  assumes "0 \<le> x"
  shows "0 \<le> round_binary p emin x"
proof -
  have "0 \<le> x / 2 powi e" for e :: int using assms by simp
  then have "0 \<le> round_half_even (x / 2 powi e)" for e :: int
    using round_half_even_ge [of 0 "x / 2 powi e"] by simp
  then show ?thesis by (simp add: round_binary_def Let_def)
qed

lemma round_binary_ge_one:
  assumes "1 \<le> x" and "0 < p" and "emin \<le> 0"
  shows "1 \<le> round_binary p emin x"
proof -
  define e where "e = max emin (ilog2 \<bar>x\<bar> - (int p - 1))"
  have x: "0 < x" "\<bar>x\<bar> = x" "x \<noteq> 0" using assms(1) by simp_all
  have r: "round_binary p emin x = of_int (round_half_even (x / 2 powi e)) * 2 powi e"
    using x by (simp add: round_binary_def Let_def e_def)
  show ?thesis
  proof (cases "e \<le> 0")
    case True
    have pw: "(2 :: rat) powi e = 1 / 2 ^ nat (- e)"
      using True by (simp add: power_int_def inverse_eq_divide power_one_over)
    have "(of_int (2 ^ nat (- e)) :: rat) \<le> x / 2 powi e"
      using assms(1) by (simp add: pw)
    then have "2 ^ nat (- e) \<le> round_half_even (x / 2 powi e)"
      by (rule round_half_even_ge)
    then have "(of_int (2 ^ nat (- e)) :: rat) \<le> of_int (round_half_even (x / 2 powi e))"
      by (simp only: of_int_le_iff)
    then have "(of_int (2 ^ nat (- e)) :: rat) * 2 powi e \<le>
               of_int (round_half_even (x / 2 powi e)) * 2 powi e"
      by (intro mult_right_mono) simp_all
    then show ?thesis by (simp add: r) (simp add: pw)
  next
    case False
    then have ee: "e = ilog2 x - (int p - 1)" "0 < e" using assms(3) x by (simp_all add: e_def)
    from ilog2_bounds [OF x(1)] have "2 powi ilog2 x \<le> x" by simp
    then have "(2 :: rat) powi (e + (int p - 1)) \<le> x" using ee by simp
    then have "(2 :: rat) powi (int p - 1) * 2 powi e \<le> x"
      by (simp add: power_int_add mult.commute)
    then have "(2 :: rat) powi (int p - 1) \<le> x / 2 powi e"
      by (simp add: pos_le_divide_eq)
    moreover have "(1 :: rat) \<le> 2 powi (int p - 1)"
      using assms(2) by (intro one_le_power_int) simp_all
    ultimately have "(1 :: rat) \<le> x / 2 powi e" by (rule order_trans [rotated])
    then have "of_int 1 \<le> x / 2 powi e" by (simp only: of_int_1)
    then have "1 \<le> round_half_even (x / 2 powi e)" by (rule round_half_even_ge)
    then have "(1 :: rat) \<le> of_int (round_half_even (x / 2 powi e))" by simp
    moreover have "(1 :: rat) \<le> 2 powi e" using ee by (intro one_le_power_int) simp_all
    ultimately have "(1 :: rat) * 1 \<le> of_int (round_half_even (x / 2 powi e)) * 2 powi e"
      by (intro mult_mono) simp_all
    then show ?thesis by (simp add: r)
  qed
qed

text \<open>A value with at most \<open>p\<close> significant bits above \<open>2^emin\<close> is its own rounding.\<close>

lemma round_binary_exact:
  assumes "\<bar>m\<bar> < 2 ^ p" and "emin \<le> e"
  shows "round_binary p emin (of_int m * 2 powi e) = of_int m * 2 powi e"
proof (cases "m = 0")
  case True
  then show ?thesis by (simp add: round_binary_def)
next
  case False
  define x :: rat where "x = of_int m * 2 powi e"
  have x0: "x \<noteq> 0" using False by (simp add: x_def)
  then have xpos: "0 < \<bar>x\<bar>" by simp
  have ax: "\<bar>x\<bar> = of_int \<bar>m\<bar> * 2 powi e" by (simp add: x_def abs_mult)
  have "(of_int \<bar>m\<bar> :: rat) < of_int (2 ^ p)" using assms(1) by (simp only: of_int_less_iff)
  then have "\<bar>x\<bar> < of_int (2 ^ p) * 2 powi e"
    unfolding ax by (intro mult_strict_right_mono) simp_all
  also have "\<dots> = (2 :: rat) powi int p * 2 powi e" by simp
  also have "\<dots> = (2 :: rat) powi (int p + e)" by (simp add: power_int_add)
  finally have up: "\<bar>x\<bar> < 2 powi (int p + e)" .
  from ilog2_bounds [OF xpos] have "2 powi ilog2 \<bar>x\<bar> \<le> \<bar>x\<bar>" by simp
  with up have lt: "(2 :: rat) powi ilog2 \<bar>x\<bar> < 2 powi (int p + e)" by simp
  have "ilog2 \<bar>x\<bar> < int p + e"
  proof (rule ccontr)
    assume "\<not> ilog2 \<bar>x\<bar> < int p + e"
    then have "(2 :: rat) powi (int p + e) \<le> 2 powi ilog2 \<bar>x\<bar>"
      by (intro power_int_increasing) simp_all
    with lt show False by simp
  qed
  define e' where "e' = max emin (ilog2 \<bar>x\<bar> - (int p - 1))"
  have le: "e' - e \<le> 0" using \<open>ilog2 \<bar>x\<bar> < int p + e\<close> assms(2) by (simp add: e'_def)
  have "x / 2 powi e' = of_int m * 2 powi (e - e')"
    by (simp add: x_def power_int_diff)
  also have "\<dots> = of_int m / 2 powi (e' - e)"
    using power_int_minus [of "2 :: rat" "e' - e"] by (simp add: field_simps)
  finally have q: "x / 2 powi e' = of_int m / 2 powi (e' - e)" .
  have "(2 :: rat) powi e' = 2 powi (e' - e) * 2 powi e"
    by (simp flip: power_int_add)
  then have "(of_int (round_half_even (x / 2 powi e')) :: rat) * 2 powi e' =
        of_int (round_half_even (of_int m / 2 powi (e' - e))) * 2 powi (e' - e) * 2 powi e"
    unfolding q by simp
  also have "\<dots> = of_int m * 2 powi e"
    using scale_back [OF le, of m] by simp
  finally show ?thesis
    using x0 by (simp add: round_binary_def Let_def e'_def [symmetric] x_def [symmetric])
qed

lemma round_double_of_int:
  "\<bar>m\<bar> < 2 ^ 53 \<Longrightarrow> round_double (of_int m) = of_int m"
  using round_binary_exact [of m 53 "- 1074" 0] by (simp add: round_double_def)

lemma round_float32_of_int:
  "\<bar>m\<bar> < 2 ^ 24 \<Longrightarrow> round_float32 (of_int m) = of_int m"
  using round_binary_exact [of m 24 "- 149" 0] by (simp add: round_float32_def)

lemma round_double_numeral:
  "(numeral k :: int) < 2 ^ 53 \<Longrightarrow> round_double (numeral k) = numeral k"
  using round_double_of_int [of "numeral k"] by simp

lemma round_float32_numeral:
  "(numeral k :: int) < 2 ^ 24 \<Longrightarrow> round_float32 (numeral k) = numeral k"
  using round_float32_of_int [of "numeral k"] by simp

lemma round_double_dyadic:
  "\<bar>m\<bar> < 2 ^ 53 \<Longrightarrow> n \<le> 1074 \<Longrightarrow>
   round_double (of_int m / 2 ^ n) = of_int m / 2 ^ n"
  using round_binary_exact [of m 53 "- 1074" "- int n"]
  by (simp add: round_double_def power_int_minus field_simps)

lemma round_float32_dyadic:
  "\<bar>m\<bar> < 2 ^ 24 \<Longrightarrow> n \<le> 149 \<Longrightarrow>
   round_float32 (of_int m / 2 ^ n) = of_int m / 2 ^ n"
  using round_binary_exact [of m 24 "- 149" "- int n"]
  by (simp add: round_float32_def power_int_minus field_simps)

lemma round_double_nonneg: "0 \<le> x \<Longrightarrow> 0 \<le> round_double x"
  by (simp add: round_double_def round_binary_nonneg)

lemma round_double_ge_one: "1 \<le> x \<Longrightarrow> 1 \<le> round_double x"
  by (simp add: round_double_def round_binary_ge_one)

lemma round_double_zero [simp]: "round_double 0 = 0"
  by (simp add: round_double_def round_binary_def)

lemma round_double_one [simp]: "round_double 1 = 1"
  using round_double_of_int [of 1] by simp

lemma round_float32_one [simp]: "round_float32 1 = 1"
  using round_float32_of_int [of 1] by simp

section \<open>Facts about the sequence loop\<close>

lemmas seq_defs = make_sequence_def sampled_frame_count_def frame_count_raw_def frame_extents_def
  py_int_def floor_rat_numeral_div frame_step_def sequence_duration_def

lemma round_double_values:
  "round_double (5 / 8) = 5 / 8" "round_double (3 / 8) = 3 / 8"
  "round_double (3 / 2) = 3 / 2" "round_double (7 / 4) = 7 / 4"
  "round_double (5 / 16) = 5 / 16" "round_double (1 / 16) = 1 / 16"
  "round_double (9 / 4) = 9 / 4" "round_double (1 / 32) = 1 / 32"
  "round_double (7 / 32) = 7 / 32"
  using round_double_dyadic [of 5 3] round_double_dyadic [of 3 3] round_double_dyadic [of 3 1]
    round_double_dyadic [of 7 2] round_double_dyadic [of 5 4] round_double_dyadic [of 1 4]
    round_double_dyadic [of 9 2] round_double_dyadic [of 1 5] round_double_dyadic [of 7 5]
  by simp_all

lemma round_float32_values:
  "round_float32 (1 / 16) = 1 / 16" "round_float32 (1 / 32) = 1 / 32"
  using round_float32_dyadic [of 1 4] round_float32_dyadic [of 1 5] by simp_all

lemmas float_values = round_double_values round_float32_values round_double_numeral
  round_float32_numeral

lemma bone_keys_length: "bone_keys sc a fr sub f pbs = Inr ks \<Longrightarrow> length ks = length pbs"
  by (induction pbs arbitrary: ks) (auto split: if_splits sum.splits)

lemma frame_keys_length:
  "frame_keys sc a pbs f step n frame = Inr ks \<Longrightarrow> length ks = n * length pbs"
  by (induction n arbitrary: ks frame) (auto split: sum.splits dest: bone_keys_length)

lemma bone_keys_time:
  "bone_keys sc a fr sub f pbs = Inr ks \<Longrightarrow> k \<in> set ks \<Longrightarrow>
   f \<noteq> 0 \<and> time k = round_float32 (round_double (1 / f))"
  by (induction pbs arbitrary: ks) (auto split: if_splits sum.splits)

lemma frame_keys_time:
  "frame_keys sc a pbs f step n frame = Inr ks \<Longrightarrow> k \<in> set ks \<Longrightarrow>
   f \<noteq> 0 \<and> time k = round_float32 (round_double (1 / f))"
proof (induction n arbitrary: ks frame)
  case 0
  then show ?case by simp
next
  case (Suc n)
  from Suc.prems(1) obtain ks1 ks2 where
    b: "bone_keys sc a (py_int frame) (py_mod1 frame) f pbs = Inr ks1" and
    r: "frame_keys sc a pbs f step n (round_double (frame + step)) = Inr ks2" and
    ks: "ks = ks1 @ ks2"
    by (auto split: sum.splits)
  from Suc.prems(2) ks have "k \<in> set ks1 \<or> k \<in> set ks2" by simp
  then show ?case
    using bone_keys_time [OF b] Suc.IH [OF r] by blast
qed

lemma build_sequence_InrD:
  assumes "build_sequence sc pbs fsi s = Inr (q, ks)"
  shows "bs_fps s \<noteq> 0"
    and "frame_count q = of_int (sampled_frame_count s)"
    and "frame_start_index q = of_int fsi"
    and "bone_count q = of_nat (length pbs)"
    and "fps q = round_float32 (round_double (of_int (sampled_frame_count s) /
                   round_double (of_int (frame_count_raw s) / bs_fps s)))"
    and "frame_keys sc (action (nla_state s)) pbs (fps q) (round_double (frame_step s))
           (nat (sampled_frame_count s))
           (round_double (of_int (frame_start (nla_state s)))) = Inr ks"
    and "\<exists>raw. cp1252_encode (bs_name s) = Some raw \<and> set_name_field raw = Inr (seq_name q)"
  using assms
  by (auto simp: build_sequence_def sequence_duration_def Let_def
      split: sum.splits option.splits if_splits)

lemma build_sequence_keys_length:
  assumes "build_sequence sc pbs fsi s = Inr (q, ks)"
  shows "length ks = nat (sampled_frame_count s) * length pbs"
  using build_sequence_InrD(6) [OF assms] by (rule frame_keys_length)

section \<open>Frame count and frame step of a sequence\<close>


text \<open>
  C3 (amended). For a compression ratio in [0, 1] and a non-negative quota the frame
  count is at least the quota and at least 0; it is at least 1 when the quota is at
  least 1 or \<open>raw_frame_count * compression_ratio\<close> is at least 1.
\<close>

theorem sampled_frame_count_bounds:
  assumes "0 \<le> compression_ratio s" and "compression_ratio s \<le> 1" and "0 \<le> key_quota s"
  shows "key_quota s \<le> sampled_frame_count s \<and> 0 \<le> sampled_frame_count s \<and>
         (1 \<le> key_quota s \<or> 1 \<le> of_int (frame_count_raw s) * compression_ratio s
            \<longrightarrow> 1 \<le> sampled_frame_count s)"
proof -
  have "1 \<le> of_int (frame_count_raw s) * compression_ratio s \<Longrightarrow>
        1 \<le> py_int (round_double (of_int (frame_count_raw s) * compression_ratio s))"
    using round_double_ge_one [of "of_int (frame_count_raw s) * compression_ratio s"]
    by (simp add: py_int_def le_floor_iff)
  then show ?thesis
    using assms by (auto simp: sampled_frame_count_def)
qed

theorem sampled_frame_count_bounds_witness:
  "key_quota (make_sequence (lit ''a'') 0 9 (1 / 2) 3) \<le> sampled_frame_count (make_sequence (lit ''a'') 0 9 (1 / 2) 3)
   \<and> 1 \<le> sampled_frame_count (make_sequence (lit ''a'') 0 9 (1 / 2) 3)"
  using sampled_frame_count_bounds [of "make_sequence (lit ''a'') 0 9 (1 / 2) 3"]
  by (simp add: make_sequence_def)

text \<open>Ten raw frames at ratio 1/16 and quota 0: the frame count is 0.\<close>

theorem frame_count_zero_counterexample:
  "0 \<le> compression_ratio (make_sequence (lit ''a'') 0 9 (1 / 16) 0) \<and>
   compression_ratio (make_sequence (lit ''a'') 0 9 (1 / 16) 0) \<le> 1 \<and>
   0 \<le> key_quota (make_sequence (lit ''a'') 0 9 (1 / 16) 0) \<and>
   sampled_frame_count (make_sequence (lit ''a'') 0 9 (1 / 16) 0) = 0"
  by (simp add: seq_defs float_values)

text \<open>
  C4 (amended). The frame step is 0 when the frame count is 1 and
  \<open>(frame_end - frame_start) / (frame_count - 1)\<close> otherwise; for a reversed range it is
  negative when the frame count exceeds 1.
\<close>

theorem frame_step_value:
  "(sampled_frame_count s = 1 \<longrightarrow> frame_step s = 0) \<and>
   (sampled_frame_count s \<noteq> 1 \<longrightarrow>
      frame_step s = of_int (frame_end (nla_state s) - frame_start (nla_state s)) /
                     of_int (sampled_frame_count s - 1)) \<and>
   (frame_start (nla_state s) > frame_end (nla_state s) \<and> 1 < sampled_frame_count s
      \<longrightarrow> frame_step s < 0)"
proof -
  have neg: "- (of_int (a - b) / c) = of_int (b - a) / c" for a b :: int and c :: rat
    by (simp add: minus_divide_left)
  have "frame_start (nla_state s) > frame_end (nla_state s) \<and> 1 < sampled_frame_count s
      \<longrightarrow> frame_step s < 0"
    by (auto simp: frame_step_def frame_extents_def Let_def abs_if divide_neg_pos)
  moreover have "sampled_frame_count s = 1 \<longrightarrow> frame_step s = 0"
    by (simp add: frame_step_def)
  moreover have "sampled_frame_count s \<noteq> 1 \<longrightarrow>
      frame_step s = of_int (frame_end (nla_state s) - frame_start (nla_state s)) /
                     of_int (sampled_frame_count s - 1)"
    by (auto simp: frame_step_def frame_extents_def Let_def abs_if neg simp del: of_int_diff)
  ultimately show ?thesis by blast
qed

theorem frame_step_value_witness:
  "frame_step (make_sequence (lit ''a'') 9 0 (1 / 2) 0) = - 9 / 4"
  using frame_step_value [of "make_sequence (lit ''a'') 9 0 (1 / 2) 0"]
  by (simp add: make_sequence_def sampled_frame_count_def frame_count_raw_def frame_extents_def
      py_int_def floor_rat_numeral_div float_values)

text \<open>
  A frame count of 0 leaves the step at \<open>-5\<close>, not 0; a reversed range with a frame
  count of 1 has step 0, which is not negative.
\<close>

theorem frame_step_counterexample:
  "sampled_frame_count (make_sequence (lit ''a'') 0 5 (1 / 16) 0) \<le> 1 \<and>
   frame_step (make_sequence (lit ''a'') 0 5 (1 / 16) 0) = - 5 \<and>
   frame_start (nla_state (make_sequence (lit ''a'') 5 0 (1 / 4) 0))
     > frame_end (nla_state (make_sequence (lit ''a'') 5 0 (1 / 4) 0)) \<and>
   \<not> frame_step (make_sequence (lit ''a'') 5 0 (1 / 4) 0) < 0"
  by (simp add: seq_defs float_values)

section \<open>The sequence loop as a whole\<close>

lemma frames_before_simps:
  "frames_before ss 0 = 0"
  "frames_before (s # ss) (Suc k) = sampled_frame_count s + frames_before ss k"
  by (simp_all add: frames_before_def)

lemma keys_before_simps:
  "keys_before nb ss 0 = 0"
  "keys_before nb (s # ss) (Suc k) = nat (sampled_frame_count s) * nb + keys_before nb ss k"
  by (simp_all add: keys_before_def)

text \<open>
  What the loop returns: one (record, keys) pair per sequence, each the result of the
  iteration at the running frame index; the keys concatenated, the records stored by
  name.
\<close>

lemma build_sequences_outs:
  assumes "build_sequences sc pbs ss fsi psa = Inr psa'"
  shows "\<exists>outs. length outs = length ss \<and>
           (\<forall>k < length ss.
              build_sequence sc pbs (fsi + frames_before ss k) (ss ! k) = Inr (outs ! k)) \<and>
           keys psa' = keys psa @ concat (map snd outs) \<and>
           sequences psa' =
             fold (\<lambda>so d. dict_set d (bs_name (fst so)) (fst (snd so))) (zip ss outs)
               (sequences psa)"
  using assms
proof (induction ss arbitrary: fsi psa)
  case Nil
  then show ?case by simp
next
  case (Cons s ss)
  from Cons.prems obtain q ks where
    b: "build_sequence sc pbs fsi s = Inr (q, ks)" and
    r: "build_sequences sc pbs ss (fsi + sampled_frame_count s)
          (psa\<lparr>keys := keys psa @ ks, sequences := dict_set (sequences psa) (bs_name s) q\<rparr>)
        = Inr psa'"
    by (auto split: sum.splits prod.splits)
  from Cons.IH [OF r] obtain outs where
    l: "length outs = length ss" and
    e: "\<forall>k < length ss.
          build_sequence sc pbs (fsi + sampled_frame_count s + frames_before ss k) (ss ! k)
            = Inr (outs ! k)" and
    k: "keys psa' = (keys psa @ ks) @ concat (map snd outs)" and
    d: "sequences psa' =
          fold (\<lambda>so d. dict_set d (bs_name (fst so)) (fst (snd so))) (zip ss outs)
            (dict_set (sequences psa) (bs_name s) q)"
    by auto
  have "\<forall>k < length (s # ss).
          build_sequence sc pbs (fsi + frames_before (s # ss) k) ((s # ss) ! k)
            = Inr (((q, ks) # outs) ! k)"
  proof (intro allI impI)
    fix k assume "k < length (s # ss)"
    then show "build_sequence sc pbs (fsi + frames_before (s # ss) k) ((s # ss) ! k)
            = Inr (((q, ks) # outs) ! k)"
      using b e by (cases k) (simp_all add: frames_before_simps add.assoc)
  qed
  then show ?case
    using l k d by (intro exI [of _ "(q, ks) # outs"]) simp
qed

lemma map_of_dict_set: "map_of (dict_set d k v) = (map_of d)(k \<mapsto> v)"
  by (induction d) (auto simp: fun_eq_iff)

lemma fold_dict_other:
  assumes "n \<notin> set (map bs_name ss)"
  shows "map_of (fold (\<lambda>so d. dict_set d (bs_name (fst so)) (fst (snd so))) (zip ss outs) d) n
           = map_of d n"
  using assms
proof (induction ss arbitrary: outs d)
  case Nil
  then show ?case by simp
next
  case (Cons s ss)
  then show ?case by (cases outs) (auto simp: map_of_dict_set)
qed

lemma fold_dict_last:
  assumes "length outs = length ss" and "k < length ss" and "last_of_its_name ss k"
  shows "map_of (fold (\<lambda>so d. dict_set d (bs_name (fst so)) (fst (snd so))) (zip ss outs) d)
           (bs_name (ss ! k)) = Some (fst (outs ! k))"
  using assms
proof (induction ss arbitrary: outs d k)
  case Nil
  then show ?case by simp
next
  case (Cons s ss)
  then obtain out1 os where outs: "outs = out1 # os" by (cases outs) auto
  show ?case
  proof (cases k)
    case 0
    then have "bs_name s \<notin> set (map bs_name ss)"
      using Cons.prems(3) by (simp add: last_of_its_name_def)
    then show ?thesis
      using 0 outs by (simp add: fold_dict_other map_of_dict_set)
  next
    case (Suc j)
    then have "last_of_its_name ss j" using Cons.prems(3) by (simp add: last_of_its_name_def)
    then show ?thesis
      using Suc outs Cons.prems(1,2) Cons.IH [of os j] by simp
  qed
qed

lemma dict_set_fresh: "k \<notin> fst ` set d \<Longrightarrow> dict_set d k v = d @ [(k, v)]"
  by (induction d) auto

lemma fold_dict_distinct:
  assumes "length outs = length ss" and "distinct (map bs_name ss)"
    and "set (map bs_name ss) \<inter> fst ` set d = {}"
  shows "fold (\<lambda>so d. dict_set d (bs_name (fst so)) (fst (snd so))) (zip ss outs) d
           = d @ map (\<lambda>so. (bs_name (fst so), fst (snd so))) (zip ss outs)"
  using assms
proof (induction ss arbitrary: outs d)
  case Nil
  then show ?case by simp
next
  case (Cons s ss)
  then obtain out1 os where outs: "outs = out1 # os" by (cases outs) auto
  have f: "bs_name s \<notin> fst ` set d" using Cons.prems(3) by auto
  have "set (map bs_name ss) \<inter> fst ` set (d @ [(bs_name s, fst out1)]) = {}"
    using Cons.prems(2,3) by auto
  then show ?case
    using outs Cons.prems(1,2) Cons.IH [of os "d @ [(bs_name s, fst out1)]"]
    by (simp add: dict_set_fresh [OF f])
qed

lemma concat_block:
  assumes "k < length xss"
  shows "take (length (xss ! k)) (drop (length (concat (take k xss))) (concat xss)) = xss ! k"
proof -
  have "concat xss = concat (take k xss) @ xss ! k @ concat (drop (Suc k) xss)"
    using id_take_nth_drop [OF assms] by (metis concat.simps(2) concat_append)
  then show ?thesis by simp
qed

lemma build_psa_outs:
  assumes "build_psa sc opts = Inr psa" and "bone_indices sc = Some is"
    and "ss = export_sequences opts"
  shows "\<exists>outs. length outs = length ss \<and>
           (\<forall>k < length ss.
              build_sequence sc is (frames_before ss k) (ss ! k) = Inr (outs ! k)) \<and>
           keys psa = concat (map snd outs) \<and>
           sequences psa =
             fold (\<lambda>so d. dict_set d (bs_name (fst so)) (fst (snd so))) (zip ss outs) []"
proof -
  from assms(1,2) obtain recs where
    "build_sequences sc is ss 0 \<lparr>bones = recs, sequences = [], keys = []\<rparr> = Inr psa"
    by (auto simp: build_psa_def Let_def assms(3) export_sequences_def
        split: option.splits sum.splits if_splits)
  from build_sequences_outs [OF this] show ?thesis by simp
qed

lemma keys_before_outs:
  assumes "length outs = length ss"
    and "\<forall>k < length ss. length (snd (outs ! k)) = nat (sampled_frame_count (ss ! k)) * nb"
    and "k \<le> length ss"
  shows "keys_before nb ss k = length (concat (take k (map snd outs)))"
proof -
  have "map (\<lambda>s. nat (sampled_frame_count s) * nb) (take k ss) =
        map length (take k (map snd outs))"
    using assms by (intro nth_equalityI) simp_all
  then show ?thesis by (simp add: keys_before_def length_concat)
qed

text \<open>
  The summary used by the claims: the \<open>k\<close>-th block of the flat key array is what the
  \<open>k\<close>-th iteration emitted, the blocks fill the array, and the record of the iteration
  is the one stored under the sequence's name unless a later sequence has the same name.
\<close>

lemma build_psa_sequence:
  assumes "build_psa sc opts = Inr psa" and "bone_indices sc = Some is"
    and "ss = export_sequences opts" and "k < length ss"
  shows "\<exists>q. build_sequence sc is (frames_before ss k) (ss ! k)
                = Inr (q, keys_of_sequence psa (length is) ss k) \<and>
              (last_of_its_name ss k \<longrightarrow>
                 map_of (sequences psa) (bs_name (ss ! k)) = Some q) \<and>
              (distinct (map bs_name ss) \<longrightarrow>
                 length (sequences psa) = length ss \<and>
                 sequences psa ! k = (bs_name (ss ! k), q))"
    and "length (keys psa) = keys_before (length is) ss (length ss)"
proof -
  from build_psa_outs [OF assms(1-3)] obtain outs where
    l: "length outs = length ss" and
    e: "\<forall>k < length ss.
          build_sequence sc is (frames_before ss k) (ss ! k) = Inr (outs ! k)" and
    ks: "keys psa = concat (map snd outs)" and
    d: "sequences psa =
          fold (\<lambda>so d. dict_set d (bs_name (fst so)) (fst (snd so))) (zip ss outs) []"
    by blast
  have len: "\<forall>j < length ss.
      length (snd (outs ! j)) = nat (sampled_frame_count (ss ! j)) * length is"
  proof (intro allI impI)
    fix j assume "j < length ss"
    with e have "build_sequence sc is (frames_before ss j) (ss ! j)
        = Inr (fst (outs ! j), snd (outs ! j))" by simp
    then show "length (snd (outs ! j)) = nat (sampled_frame_count (ss ! j)) * length is"
      by (rule build_sequence_keys_length)
  qed
  note kb = keys_before_outs [OF l len]
  show "length (keys psa) = keys_before (length is) ss (length ss)"
    using kb [of "length ss"] l by (simp add: ks)
  have "keys_of_sequence psa (length is) ss k =
        take (length (map snd outs ! k))
          (drop (length (concat (take k (map snd outs)))) (concat (map snd outs)))"
    using kb [of k] len assms(4) l by (simp add: keys_of_sequence_def ks)
  also have "\<dots> = map snd outs ! k"
    using assms(4) l by (intro concat_block) simp
  finally have blk: "keys_of_sequence psa (length is) ss k = snd (outs ! k)"
    using assms(4) l by simp
  have 1: "build_sequence sc is (frames_before ss k) (ss ! k)
                = Inr (fst (outs ! k), keys_of_sequence psa (length is) ss k)"
    using e assms(4) by (simp add: blk)
  have 2: "last_of_its_name ss k \<longrightarrow>
             map_of (sequences psa) (bs_name (ss ! k)) = Some (fst (outs ! k))"
    using fold_dict_last [OF l assms(4)] by (simp add: d)
  have 3: "distinct (map bs_name ss) \<longrightarrow>
             length (sequences psa) = length ss \<and>
             sequences psa ! k = (bs_name (ss ! k), fst (outs ! k))"
  proof
    assume "distinct (map bs_name ss)"
    then have "sequences psa = map (\<lambda>so. (bs_name (fst so), fst (snd so))) (zip ss outs)"
      using fold_dict_distinct [OF l, of "[]"] by (simp add: d)
    then show "length (sequences psa) = length ss \<and>
             sequences psa ! k = (bs_name (ss ! k), fst (outs ! k))"
      using l assms(4) by simp
  qed
  from 1 2 3 show "\<exists>q. build_sequence sc is (frames_before ss k) (ss ! k)
                = Inr (q, keys_of_sequence psa (length is) ss k) \<and>
              (last_of_its_name ss k \<longrightarrow>
                 map_of (sequences psa) (bs_name (ss ! k)) = Some q) \<and>
              (distinct (map bs_name ss) \<longrightarrow>
                 length (sequences psa) = length ss \<and>
                 sequences psa ! k = (bs_name (ss ! k), q))"
    by blast
qed

text \<open>The roundings met in the examples: 1/3 and 96/7 as a double, then as a 32-bit float.\<close>

lemma round_double_third:
  "round_double (1 / 3) = 6004799503160661 / 18014398509481984"
proof -
  have "round_double (1 / 3) =
      of_int (round_half_even (1 / 3 / 2 powi (max (- 1074) (- 2 - (int 53 - 1)))))
        * 2 powi (max (- 1074) (- 2 - (int 53 - 1)))"
    unfolding round_double_def by (rule round_binary_eval) (simp_all add: power_int_minus)
  then show ?thesis
    by (simp add: round_half_even_def Let_def power_int_minus floor_rat_numeral_div)
qed

lemma round_float32_third:
  "round_float32 (6004799503160661 / 18014398509481984) = 11184811 / 33554432"
proof -
  have "round_float32 (6004799503160661 / 18014398509481984) =
      of_int (round_half_even (6004799503160661 / 18014398509481984
                 / 2 powi (max (- 149) (- 2 - (int 24 - 1)))))
        * 2 powi (max (- 149) (- 2 - (int 24 - 1)))"
    unfolding round_float32_def by (rule round_binary_eval) (simp_all add: power_int_minus)
  then show ?thesis
    by (simp add: round_half_even_def Let_def power_int_minus floor_rat_numeral_div)
qed

lemma round_double_sevenths:
  "round_double (96 / 7) = 7720456504063707 / 562949953421312"
proof -
  have "round_double (96 / 7) =
      of_int (round_half_even (96 / 7 / 2 powi (max (- 1074) (3 - (int 53 - 1)))))
        * 2 powi (max (- 1074) (3 - (int 53 - 1)))"
    unfolding round_double_def by (rule round_binary_eval) (simp_all add: power_int_minus)
  then show ?thesis
    by (simp add: round_half_even_def Let_def power_int_minus floor_rat_numeral_div)
qed

lemma round_float32_sevenths:
  "round_float32 (7720456504063707 / 562949953421312) = 14380471 / 1048576"
proof -
  have "round_float32 (7720456504063707 / 562949953421312) =
      of_int (round_half_even (7720456504063707 / 562949953421312
                 / 2 powi (max (- 149) (3 - (int 24 - 1)))))
        * 2 powi (max (- 149) (3 - (int 24 - 1)))"
    unfolding round_float32_def by (rule round_binary_eval) (simp_all add: power_int_minus)
  then show ?thesis
    by (simp add: round_half_even_def Let_def power_int_minus floor_rat_numeral_div)
qed

text \<open>
  Ten raw frames at the double nearest to 0.7: the exact product lies below 7, the float
  product is 7, which \<open>int\<close> keeps.
\<close>

lemma round_double_seven_tenths:
  "round_double (10 * (3152519739159347 / 4503599627370496)) = 7"
proof -
  have "round_double (10 * (3152519739159347 / 4503599627370496)) =
      of_int (round_half_even (10 * (3152519739159347 / 4503599627370496)
                 / 2 powi (max (- 1074) (2 - (int 53 - 1)))))
        * 2 powi (max (- 1074) (2 - (int 53 - 1)))"
    unfolding round_double_def by (rule round_binary_eval) simp_all
  then show ?thesis
    by (simp add: round_half_even_def Let_def power_int_minus floor_rat_numeral_div)
qed

lemmas export_eval = build_psa_eval build_sequence_def seq_defs float_values
  dyadic_sequence_def two_sequences_def same_name_sequences_def thirds_sequence_def
  sevenths_sequence_def strip_def is_space_def eval_nat_numeral py_mod1_def
  round_double_third round_float32_third round_double_sevenths round_float32_sevenths

lemma build_psa_totals:
  assumes "build_psa sc opts = Inr psa" and "bone_indices sc = Some is"
    and "ss = export_sequences opts"
  shows "length (keys psa) = keys_before (length is) ss (length ss)"
    and "distinct (map bs_name ss) \<Longrightarrow> length (sequences psa) = length ss"
proof -
  from build_psa_outs [OF assms] obtain outs where
    l: "length outs = length ss" and
    e: "\<forall>k < length ss.
          build_sequence sc is (frames_before ss k) (ss ! k) = Inr (outs ! k)" and
    ks: "keys psa = concat (map snd outs)" and
    d: "sequences psa =
          fold (\<lambda>so d. dict_set d (bs_name (fst so)) (fst (snd so))) (zip ss outs) []"
    by blast
  have len: "\<forall>j < length ss.
      length (snd (outs ! j)) = nat (sampled_frame_count (ss ! j)) * length is"
  proof (intro allI impI)
    fix j assume "j < length ss"
    with e have "build_sequence sc is (frames_before ss j) (ss ! j)
        = Inr (fst (outs ! j), snd (outs ! j))" by simp
    then show "length (snd (outs ! j)) = nat (sampled_frame_count (ss ! j)) * length is"
      by (rule build_sequence_keys_length)
  qed
  show "length (keys psa) = keys_before (length is) ss (length ss)"
    using keys_before_outs [OF l len, of "length ss"] l by (simp add: ks)
  show "length (sequences psa) = length ss" if "distinct (map bs_name ss)"
    using fold_dict_distinct [OF l that, of "[]"] l by (simp add: d)
qed

lemma keys_before_in_frames:
  assumes "\<forall>j < k. 0 \<le> sampled_frame_count (ss ! j)" and "k \<le> length ss"
  shows "keys_before nb ss k = nat (frames_before ss k) * nb"
  using assms
proof (induction k)
  case 0
  then show ?case by (simp add: keys_before_def frames_before_def)
next
  case (Suc k)
  then have k: "k < length ss" by simp
  have t: "take (Suc k) ss = take k ss @ [ss ! k]" using k by (simp add: take_Suc_conv_app_nth)
  have nn: "0 \<le> frames_before ss k"
    using Suc.prems(1) k
    by (auto simp: frames_before_def in_set_conv_nth intro!: sum_list_nonneg)
  have "keys_before nb ss (Suc k) = keys_before nb ss k + nat (sampled_frame_count (ss ! k)) * nb"
    by (simp add: keys_before_def t)
  also have "\<dots> = nat (frames_before ss k) * nb + nat (sampled_frame_count (ss ! k)) * nb"
    using Suc by simp
  also have "\<dots> = nat (frames_before ss (Suc k)) * nb"
    using nn Suc.prems(1) by (simp add: frames_before_def t nat_add_distrib distrib_right)
  finally show ?case .
qed

lemma two_sequences_built: "\<exists>psa. build_psa chain_scene two_sequences = Inr psa"
  by (simp add: export_eval)

lemma two_sequences_exported:
  "export_sequences two_sequences =
     [dyadic_sequence (lit ''a'') 0 9 (1 / 2) 0, dyadic_sequence (lit ''b'') 0 1 1 0]"
  by (simp add: export_sequences_def two_sequences_def plain_options_def rename_sequence_def
      strip_def is_space_def lit_def dyadic_sequence_def make_sequence_def)

lemma chain_indices: "bone_indices chain_scene = Some [0, 1, 2]"
  by (simp add: bone_indices_def chain_scene_def lit_def)

lemma two_sequences_counts:
  "sampled_frame_count (dyadic_sequence (lit ''a'') 0 9 (1 / 2) 0) = 5"
  "sampled_frame_count (dyadic_sequence (lit ''b'') 0 1 1 0) = 2"
  by (simp_all add: dyadic_sequence_def seq_defs float_values)

section \<open>The Sequence records and the key array of an export\<close>



text \<open>
  A sequence of three frames played at 3 frames per second is recorded with fps 3,
  and each of its keys carries the time 11184811/33554432, the 32-bit float nearest to
  the double nearest to 1/3; seven raw frames at 32 frames per second reduced to a quota
  of three frames are recorded with fps 14380471/1048576, the 32-bit float nearest to
  96/7.
\<close>

theorem fps_and_key_time_counterexample:
  "map_sum id (\<lambda>psa. (map (\<lambda>kv. fps (snd kv)) (sequences psa), map time (keys psa)))
     (build_psa root_scene thirds_sequence)
     = Inr ([3], [11184811 / 33554432, 11184811 / 33554432, 11184811 / 33554432]) \<and>
   (11184811 / 33554432 :: rat) \<noteq> 1 / 3 \<and>
   map_sum id (\<lambda>psa. map (\<lambda>kv. (frame_count (snd kv), fps (snd kv))) (sequences psa))
     (build_psa root_scene sevenths_sequence)
     = Inr [(3, 14380471 / 1048576)] \<and>
   (14380471 / 1048576 :: rat) \<noteq> 3 / (7 / 32)"
  by (simp add: export_eval)

text \<open>
  C6 (amended). For every exported sequence the clip frame rate is not zero, and with
  \<open>f\<close> the 32-bit float nearest to the double quotient
  \<open>frame_count / (raw_frame_count / clip_fps)\<close> (both divisions rounded to double),
  the record stored under the sequence's name has fps \<open>f\<close> unless a later sequence of the
  same name replaced it, and each of the frame count times bone count keys emitted for
  the sequence has as time the 32-bit float nearest to the double \<open>1 / f\<close>, whatever
  its position in the sequence.
\<close>

theorem fps_and_key_time_of_export:
  assumes "build_psa sc opts = Inr psa" and "bone_indices sc = Some is"
    and "ss = export_sequences opts" and "k < length ss"
    and "f = round_float32 (round_double (of_int (sampled_frame_count (ss ! k)) /
               round_double (of_int (frame_count_raw (ss ! k)) / bs_fps (ss ! k))))"
  shows "bs_fps (ss ! k) \<noteq> 0 \<and>
         (last_of_its_name ss k \<longrightarrow>
            (\<exists>q. map_of (sequences psa) (bs_name (ss ! k)) = Some q \<and> fps q = f)) \<and>
         length (keys_of_sequence psa (length is) ss k)
           = nat (sampled_frame_count (ss ! k)) * length is \<and>
         (\<forall>key \<in> set (keys_of_sequence psa (length is) ss k).
            f \<noteq> 0 \<and> time key = round_float32 (round_double (1 / f)))"
proof -
  from build_psa_sequence(1) [OF assms(1-4)] obtain q where
    b: "build_sequence sc is (frames_before ss k) (ss ! k)
          = Inr (q, keys_of_sequence psa (length is) ss k)" and
    m: "last_of_its_name ss k \<longrightarrow> map_of (sequences psa) (bs_name (ss ! k)) = Some q"
    by blast
  have f: "fps q = f" using build_sequence_InrD(5) [OF b] by (simp add: assms(5))
  have 1: "bs_fps (ss ! k) \<noteq> 0" by (rule build_sequence_InrD(1) [OF b])
  have 2: "last_of_its_name ss k \<longrightarrow>
            (\<exists>q. map_of (sequences psa) (bs_name (ss ! k)) = Some q \<and> fps q = f)"
    using m f by auto
  have 3: "\<forall>key \<in> set (keys_of_sequence psa (length is) ss k).
            f \<noteq> 0 \<and> time key = round_float32 (round_double (1 / f))"
    using frame_keys_time [OF build_sequence_InrD(6) [OF b]] by (simp add: f)
  have 4: "length (keys_of_sequence psa (length is) ss k)
           = nat (sampled_frame_count (ss ! k)) * length is"
    by (rule build_sequence_keys_length [OF b])
  from 1 2 3 4 show ?thesis by blast
qed

text \<open>
  The chain, ten raw frames at 32 frames per second sampled to five: fps 16, and the
  fifteen keys carry the time 1/16.
\<close>

theorem fps_and_key_time_of_export_witness:
  "\<exists>psa q. build_psa chain_scene two_sequences = Inr psa \<and>
     map_of (sequences psa) (lit ''a'') = Some q \<and> fps q = 16 \<and>
     length (keys_of_sequence psa 3 (export_sequences two_sequences) 0) = 15 \<and>
     (\<forall>key \<in> set (keys_of_sequence psa 3 (export_sequences two_sequences) 0).
        time key = 1 / 16)"
proof -
  obtain psa where h: "build_psa chain_scene two_sequences = Inr psa"
    using two_sequences_built by blast
  define ss where "ss = export_sequences two_sequences"
  have ss: "ss = [dyadic_sequence (lit ''a'') 0 9 (1 / 2) 0, dyadic_sequence (lit ''b'') 0 1 1 0]"
    by (simp add: ss_def two_sequences_exported)
  have k: "0 < length ss" by (simp add: ss)
  have l: "last_of_its_name ss 0"
    by (simp add: ss last_of_its_name_def dyadic_sequence_def make_sequence_def lit_def)
  have f: "(16 :: rat) = round_float32 (round_double (of_int (sampled_frame_count (ss ! 0)) /
               round_double (of_int (frame_count_raw (ss ! 0)) / bs_fps (ss ! 0))))"
    by (simp add: ss dyadic_sequence_def seq_defs float_values)
  have n: "bs_name (ss ! 0) = lit ''a''"
    by (simp add: ss dyadic_sequence_def make_sequence_def)
  have c: "sampled_frame_count (ss ! 0) = 5"
    by (simp add: ss two_sequences_counts)
  from fps_and_key_time_of_export [OF h chain_indices ss_def k f] l
  have "(\<exists>q. map_of (sequences psa) (lit ''a'') = Some q \<and> fps q = 16) \<and>
        length (keys_of_sequence psa 3 ss 0) = 15 \<and>
        (\<forall>key \<in> set (keys_of_sequence psa 3 ss 0). time key = 1 / 16)"
    by (simp add: n c numeral_3_eq_3 float_values)
  then show ?thesis using h by (auto simp: ss_def)
qed

text \<open>
  The chain of three bones with a first sequence of ten raw frames at ratio 1/2 and
  a second of two frames: the first record has frame count 5, fifteen of the 21 keys
  belong to it, and the second record has frame start index 5, not 15. Two sequences
  of the same name leave a single record, that of the second.
\<close>

theorem frame_start_index_counterexample:
  "map_sum id (\<lambda>psa. (map (\<lambda>kv. (fst kv, frame_count (snd kv), frame_start_index (snd kv)))
                         (sequences psa), length (keys psa)))
     (build_psa chain_scene two_sequences)
     = Inr ([(lit ''a'', 5, 0), (lit ''b'', 2, 5)], 21) \<and>
   keys_before 3 (export_sequences two_sequences) 1 = 15 \<and>
   (5 :: 32 word) \<noteq> 15 \<and>
   map_sum id (\<lambda>psa. (map (\<lambda>kv. (fst kv, frame_count (snd kv), frame_start_index (snd kv)))
                         (sequences psa), length (keys psa)))
     (build_psa chain_scene same_name_sequences)
     = Inr ([(lit ''a'', 2, 5)], 21)"
proof -
  have 1: "map_sum id (\<lambda>psa. (map (\<lambda>kv. (fst kv, frame_count (snd kv), frame_start_index (snd kv)))
                         (sequences psa), length (keys psa)))
     (build_psa chain_scene two_sequences)
     = Inr ([(lit ''a'', 5, 0), (lit ''b'', 2, 5)], 21)"
    by (simp add: export_eval)
  have 2: "keys_before 3 (export_sequences two_sequences) 1 = 15"
    by (simp add: two_sequences_exported keys_before_def two_sequences_counts)
  have 3: "(5 :: 32 word) \<noteq> 15" by simp
  have 4: "map_sum id (\<lambda>psa. (map (\<lambda>kv. (fst kv, frame_count (snd kv), frame_start_index (snd kv)))
                         (sequences psa), length (keys psa)))
     (build_psa chain_scene same_name_sequences)
     = Inr ([(lit ''a'', 2, 5)], 21)"
    by (simp add: export_eval)
  from 1 2 3 4 show ?thesis by blast
qed

text \<open>
  C2 (amended). For every export of a list of sequences whose names (after prefix,
  suffix and stripping) are pairwise distinct, there is one Sequence record per
  sequence, in emission order; the frame start index of each record is the sum of the
  frame counts of the preceding sequences, a number of frames and not of keys; the keys
  of the sequences are consecutive blocks of the flat key array that fill it, the block
  of a sequence holding frame count times exported bone count keys, and, when no frame
  count is negative, beginning at frame start index times the exported bone count.
\<close>

theorem frame_start_index_partition:
  assumes "build_psa sc opts = Inr psa" and "bone_indices sc = Some is"
    and "ss = export_sequences opts" and "distinct (map bs_name ss)"
  shows "length (sequences psa) = length ss \<and>
         length (keys psa) = keys_before (length is) ss (length ss) \<and>
         (\<forall>k < length ss.
            fst (sequences psa ! k) = bs_name (ss ! k) \<and>
            frame_start_index (snd (sequences psa ! k)) = of_int (frames_before ss k) \<and>
            frame_count (snd (sequences psa ! k)) = of_int (sampled_frame_count (ss ! k)) \<and>
            bone_count (snd (sequences psa ! k)) = of_nat (length is) \<and>
            build_sequence sc is (frames_before ss k) (ss ! k)
              = Inr (snd (sequences psa ! k), keys_of_sequence psa (length is) ss k) \<and>
            length (keys_of_sequence psa (length is) ss k)
              = nat (sampled_frame_count (ss ! k)) * length is \<and>
            ((\<forall>j < k. 0 \<le> sampled_frame_count (ss ! j)) \<longrightarrow>
               keys_before (length is) ss k = nat (frames_before ss k) * length is))"
proof -
  have each: "fst (sequences psa ! k) = bs_name (ss ! k) \<and>
            frame_start_index (snd (sequences psa ! k)) = of_int (frames_before ss k) \<and>
            frame_count (snd (sequences psa ! k)) = of_int (sampled_frame_count (ss ! k)) \<and>
            bone_count (snd (sequences psa ! k)) = of_nat (length is) \<and>
            build_sequence sc is (frames_before ss k) (ss ! k)
              = Inr (snd (sequences psa ! k), keys_of_sequence psa (length is) ss k) \<and>
            length (keys_of_sequence psa (length is) ss k)
              = nat (sampled_frame_count (ss ! k)) * length is \<and>
            ((\<forall>j < k. 0 \<le> sampled_frame_count (ss ! j)) \<longrightarrow>
               keys_before (length is) ss k = nat (frames_before ss k) * length is)"
    if k: "k < length ss" for k
  proof -
    from build_psa_sequence(1) [OF assms(1-3) k] assms(4) obtain q where
      b: "build_sequence sc is (frames_before ss k) (ss ! k)
            = Inr (q, keys_of_sequence psa (length is) ss k)" and
      n: "sequences psa ! k = (bs_name (ss ! k), q)"
      by blast
    have kb: "(\<forall>j < k. 0 \<le> sampled_frame_count (ss ! j)) \<longrightarrow>
               keys_before (length is) ss k = nat (frames_before ss k) * length is"
      using keys_before_in_frames [of k ss "length is"] k by simp
    show ?thesis
      using build_sequence_InrD(2,3,4) [OF b] build_sequence_keys_length [OF b] b kb
      by (simp add: n)
  qed
  show ?thesis
    using build_psa_totals [OF assms(1-3)] assms(4) each by blast
qed

text \<open>
  The chain with the two sequences: two records, 21 keys, the second record starts at
  frame 5 and its keys at position 15 of the key array.
\<close>

theorem frame_start_index_partition_witness:
  "\<exists>psa. build_psa chain_scene two_sequences = Inr psa \<and>
     length (sequences psa) = 2 \<and> length (keys psa) = 21 \<and>
     fst (sequences psa ! 1) = lit ''b'' \<and>
     frame_start_index (snd (sequences psa ! 1)) = 5 \<and>
     frame_count (snd (sequences psa ! 1)) = 2 \<and>
     bone_count (snd (sequences psa ! 1)) = 3 \<and>
     length (keys_of_sequence psa 3 (export_sequences two_sequences) 1) = 6 \<and>
     keys_before 3 (export_sequences two_sequences) 1 = 15"
proof -
  obtain psa where h: "build_psa chain_scene two_sequences = Inr psa"
    using two_sequences_built by blast
  define ss where "ss = export_sequences two_sequences"
  have ss: "ss = [dyadic_sequence (lit ''a'') 0 9 (1 / 2) 0, dyadic_sequence (lit ''b'') 0 1 1 0]"
    by (simp add: ss_def two_sequences_exported)
  have d: "distinct (map bs_name ss)"
    by (simp add: ss dyadic_sequence_def make_sequence_def lit_def)
  have l: "length ss = 2" by (simp add: ss)
  have fb: "frames_before ss (Suc 0) = 5"
    by (simp add: ss frames_before_def two_sequences_counts)
  have kb: "keys_before 3 ss 2 = 21" "keys_before 3 ss 1 = 15"
    by (simp_all add: ss keys_before_def two_sequences_counts eval_nat_numeral)
  have c: "sampled_frame_count (ss ! Suc 0) = 2" "bs_name (ss ! Suc 0) = lit ''b''"
    by (simp add: ss two_sequences_counts)
      (simp add: ss dyadic_sequence_def make_sequence_def)
  have l3: "length [0 :: nat, 1, 2] = 3" by simp
  note t = frame_start_index_partition [OF h chain_indices ss_def d, unfolded l3 l]
  from t have 1: "length (sequences psa) = 2" by (rule conjunct1)
  from t have 2: "length (keys psa) = 21" using kb(1) by simp
  from t [THEN conjunct2, THEN conjunct2, rule_format, of 1]
  have 3: "fst (sequences psa ! 1) = lit ''b'' \<and>
     frame_start_index (snd (sequences psa ! 1)) = 5 \<and>
     frame_count (snd (sequences psa ! 1)) = 2 \<and>
     bone_count (snd (sequences psa ! 1)) = 3 \<and>
     length (keys_of_sequence psa 3 ss 1) = 6"
    by (simp add: fb c)
  from 1 2 3 kb(2) h show ?thesis by (auto simp: ss_def)
qed

section \<open>Reading the header of a mesh file\<close>

lemma length_le_bytes: "length (le_bytes k n) = k"
  by (induction k arbitrary: n) simp_all

lemma length_Section_init: "length Section_init = 32"
  by (simp add: Section_init_def length_le_bytes)

lemma header_type_flags:
  assumes "24 \<le> length content"
  shows "type_flags (Section_of (readinto Section_init content)) =
           of_nat (le_value (take 4 (drop 20 content)))"
proof -
  have "take 4 (drop 20 (take 32 content @ drop (length content) Section_init)) =
        take 4 (drop 20 content)"
    using assms by (auto simp: drop_take min_def)
  then show ?thesis
    by (simp add: Section_of_def readinto_def length_Section_init)
qed

text \<open>
  C7. For every file that holds at least the first 24 bytes of a section header and
  whose type flags, the little-endian 32-bit integer at offset 20, differ from 1999801,
  \<open>pskimport\<close> reports "File ... is not a valid PSK file." through the error callback
  and returns False; nothing after the check (reading the data, building the mesh and
  the armature) is run, and no exception is raised.
\<close>

theorem pskimport_bad_magic:
  assumes "24 \<le> length content"
    and "of_nat (le_value (take 4 (drop 20 content))) \<noteq> (1999801 :: 32 word)"
  shows "pskimport import_rest path (Some content) =
           (Inr False, [lit ''File '' @ path @ lit '' is not a valid PSK file.''])"
  using assms(2) by (simp add: pskimport_def Let_def header_type_flags [OF assms(1)])

text \<open>A 32-byte file with type flags 1.\<close>

theorem pskimport_bad_magic_witness:
  "pskimport (\<lambda>content n. (Inr True, [])) (lit ''a.psk'') (Some bad_magic_file) =
     (Inr False, [lit ''File '' @ lit ''a.psk'' @ lit '' is not a valid PSK file.''])"
proof -
  have l: "24 \<le> length bad_magic_file" by (simp add: bad_magic_file_def)
  have m: "of_nat (le_value (take 4 (drop 20 bad_magic_file))) \<noteq> (1999801 :: 32 word)"
    by (simp add: bad_magic_file_def le_value_def)
  show ?thesis by (rule pskimport_bad_magic [OF l m])
qed

section \<open>Exports without bones or without sequences\<close>






section \<open>Names that Windows-1252 cannot encode\<close>










end
